theory Spec2Isabelle
  imports Complex_Main "HOL-Library.AList" "HOL-Library.List_Lexorder" "HOL-Library.Char_ord" "HOL-Library.Multiset"
begin

section \<open>Text primitives of the pipeline\<close>

text \<open>
  The embedding follows \<^verbatim>\<open>MAG_attrition_pipeline.py\<close>. Python strings are modelled
  as \<^typ>\<open>string\<close>: a character is a code point below 256 (the inputs of the
  pipeline, FASTQ, Kraken TSV and FASTA, are ASCII text). Python's \<^verbatim>\<open>float\<close>
  values are modelled by exact rationals, Python's unbounded \<^verbatim>\<open>int\<close> by
  \<^typ>\<open>int\<close>.
  An exception is a value of type \<open>py_error\<close> on the left of a sum.
\<close>

datatype py_error = IndexError | ZeroDivisionError | IsADirectoryError

text \<open>\<^verbatim>\<open>str.isspace\<close> on one character, for the code points below 256.\<close>

definition isspace :: "char \<Rightarrow> bool" where
  "isspace c = (c \<in> set [CHR 0x09, CHR 0x0A, CHR 0x0B, CHR 0x0C, CHR 0x0D,
                          CHR 0x1C, CHR 0x1D, CHR 0x1E, CHR 0x1F, CHR 0x20,
                          CHR 0x85, CHR 0xA0])"

text \<open>\<^verbatim>\<open>s.strip()\<close>: leading and trailing whitespace removed.\<close>

definition strip :: "string \<Rightarrow> string" where
  "strip s = rev (dropWhile isspace (rev (dropWhile isspace s)))"

text \<open>\<^verbatim>\<open>s.rstrip("\n")\<close>: every trailing line feed removed.\<close>

definition rstrip_nl :: "string \<Rightarrow> string" where
  "rstrip_nl s = rev (dropWhile (\<lambda>c. c = CHR 0x0A) (rev s))"

text \<open>\<^verbatim>\<open>s.split(sep)\<close> for a separator of one character: never an empty list.\<close>

fun split_on :: "char \<Rightarrow> string \<Rightarrow> string list" where
  "split_on sep [] = [[]]"
| "split_on sep (c # cs) =
     (if c = sep then [] # split_on sep cs
      else (case split_on sep cs of
              [] \<Rightarrow> [[c]]
            | w # ws \<Rightarrow> (c # w) # ws))"

text \<open>\<^verbatim>\<open>s.split()\<close>: the maximal runs of non-whitespace characters.\<close>

function split_ws :: "string \<Rightarrow> string list" where
  "split_ws s =
     (case dropWhile isspace s of
        [] \<Rightarrow> []
      | c # cs \<Rightarrow>
          takeWhile (\<lambda>x. \<not> isspace x) (c # cs)
            # split_ws (dropWhile (\<lambda>x. \<not> isspace x) (c # cs)))"
  by pat_completeness auto
termination
proof (relation "measure length")
  show "wf (measure length)" by simp
next
  fix s :: string and c cs
  assume d: "dropWhile isspace s = c # cs"
  have "\<not> isspace c" using d by (metis hd_dropWhile list.sel(1) list.distinct(1))
  then have "dropWhile (\<lambda>x. \<not> isspace x) (c # cs) = dropWhile (\<lambda>x. \<not> isspace x) cs"
    by simp
  moreover have "length (dropWhile (\<lambda>x. \<not> isspace x) cs) \<le> length cs"
    by (rule length_dropWhile_le)
  moreover have "length (c # cs) \<le> length s"
    using length_dropWhile_le [of isspace s] d by simp
  ultimately show "(dropWhile (\<lambda>x. \<not> isspace x) (c # cs), s) \<in> measure length"
    by simp
qed

declare split_ws.simps [simp del]

text \<open>\<^verbatim>\<open>sep.join(parts)\<close>.\<close>

fun join :: "string \<Rightarrow> string list \<Rightarrow> string" where
  "join sep [] = []"
| "join sep [x] = x"
| "join sep (x # y # ys) = x @ sep @ join sep (y # ys)"

text \<open>
  \<^verbatim>\<open>s.upper()\<close> on the code points below 256. The result is a list of code
  points, since it leaves that range: the letters a to z and the lower-case letters of
  U+00E0 to U+00FE (U+00F7, the division sign, is none) move down by 32, U+00DF becomes
  SS, U+00B5 becomes U+039C and U+00FF becomes U+0178; every other character is kept.
\<close>

definition upper_char :: "char \<Rightarrow> nat list" where
  "upper_char c =
     (let n = of_char c in
      if 0x61 \<le> n \<and> n \<le> 0x7A then [n - 0x20]
      else if n = 0xB5 then [0x39C]
      else if n = 0xDF then [0x53, 0x53]
      else if 0xE0 \<le> n \<and> n \<le> 0xFE \<and> n \<noteq> 0xF7 then [n - 0x20]
      else if n = 0xFF then [0x178]
      else [n])"

definition upper :: "string \<Rightarrow> nat list" where
  "upper s = concat (map upper_char s)"

section \<open>Utilities\<close>

text \<open>
  \<^verbatim>\<open>normalize_read_id\<close> (lines 28 to 32): strip, drop one leading \<^verbatim>\<open>@\<close>, take
  the first whitespace-separated word. \<^verbatim>\<open>s.split()[0]\<close> raises IndexError when
  there is no word.
\<close>

definition normalize_read_id :: "string \<Rightarrow> py_error + string" where
  "normalize_read_id s0 =
     (let s = strip s0;
          s = (if take 1 s = ''@'' then drop 1 s else s)
      in case split_ws s of
           [] \<Rightarrow> Inl IndexError
         | w # _ \<Rightarrow> Inr w)"

text \<open>\<^verbatim>\<open>rank_prefix\<close> (lines 35 to 45): a dictionary lookup, None for an unknown code.\<close>

definition rank_table :: "(string \<times> string) list" where
  "rank_table =
     [(''D'', ''d__''), (''K'', ''k__''), (''P'', ''p__''), (''C'', ''c__''),
      (''O'', ''o__''), (''F'', ''f__''), (''G'', ''g__''), (''S'', ''s__'')]"

definition rank_prefix :: "string \<Rightarrow> string option" where
  "rank_prefix rank = map_of rank_table rank"

section \<open>Composition statistic\<close>

text \<open>\<^verbatim>\<open>gc_fraction\<close> (lines 107 to 112).\<close>

definition gc_fraction :: "string \<Rightarrow> rat" where
  "gc_fraction seq0 =
     (let seq = upper (strip seq0)
      in if seq = [] then 0
         else of_nat (count_list seq (of_char CHR ''G'') + count_list seq (of_char CHR ''C''))
                / of_nat (length seq))"

text \<open>
  The count the specification speaks of: the characters of the input that are G or C in
  either case.
\<close>

definition gc_count :: "string \<Rightarrow> nat" where
  "gc_count s = length (filter (\<lambda>c. c \<in> set ''GgCc'') s)"

section \<open>Lineage builder\<close>

text \<open>
  Lines 65 to 73 of \<^verbatim>\<open>parse_report_build_label_map\<close>: a blank line and a line of
  fewer than six tab-separated fields are skipped; the others give rank code, taxon id
  and stripped name.
\<close>

type_synonym report_row = "string \<times> string \<times> string"

definition report_row :: "string \<Rightarrow> report_row option" where
  "report_row line =
     (if strip line = [] then None
      else let parts = split_on CHR 0x09 (rstrip_nl line) in
        if length parts < 6 then None
        else Some (parts ! 3, parts ! 4, strip (parts ! 5)))"

text \<open>
  Lines 75 to 84: the ladder \<^verbatim>\<open>lineage_by_rank\<close> is overwritten at the row's rank
  when the rank has a prefix, and a genus or species row records the joined ladder under
  its taxon id. The comprehension of line 83 keeps the ranks present in the ladder.
\<close>

type_synonym report_state = "(string \<rightharpoonup> string) \<times> (string \<rightharpoonup> string)"

definition ladder_step :: "report_state \<Rightarrow> report_row \<Rightarrow> report_state" where
  "ladder_step state r =
     (case state of (taxid_to_lineage, lineage_by_rank) \<Rightarrow>
      case r of (rank, taxid, name) \<Rightarrow>
        let lineage_by_rank =
              (case rank_prefix rank of
                 None \<Rightarrow> lineage_by_rank
               | Some pref \<Rightarrow>
                   if pref = [] then lineage_by_rank
                   else lineage_by_rank(rank \<mapsto> pref @ name))
        in if rank = ''G'' \<or> rank = ''S''
           then let ordered = [''D'', ''K'', ''P'', ''C'', ''O'', ''F'', ''G'']
                                @ (if rank = ''S'' then [''S''] else []);
                    lineage_str = join '';'' (List.map_filter lineage_by_rank ordered)
                in (taxid_to_lineage(taxid \<mapsto> lineage_str), lineage_by_rank)
           else (taxid_to_lineage, lineage_by_rank))"

fun report_loop :: "string list \<Rightarrow> report_state \<Rightarrow> report_state" where
  "report_loop [] state = state"
| "report_loop (line # f) state =
     (case report_row line of
        None \<Rightarrow> report_loop f state
      | Some r \<Rightarrow> report_loop f (ladder_step state r))"

definition parse_report_build_label_map :: "string list \<Rightarrow> (string \<rightharpoonup> string)" where
  "parse_report_build_label_map report = fst (report_loop report (Map.empty, Map.empty))"

text \<open>
  A rank report in top-down order: when a genus row is read, a row of each of the six
  ranks above genus has been read, and for a species row a genus row as well; the taxon
  ids of the genus and species rows are pairwise different.
\<close>

definition report_rows :: "string list \<Rightarrow> report_row list" where
  "report_rows report = List.map_filter report_row report"

fun ancestors_seen :: "string list \<Rightarrow> report_row list \<Rightarrow> bool" where
  "ancestors_seen seen [] = True"
| "ancestors_seen seen ((rank, taxid, name) # rows) =
     ((rank = ''G'' \<longrightarrow> set [''D'', ''K'', ''P'', ''C'', ''O'', ''F''] \<subseteq> set seen)
      \<and> (rank = ''S'' \<longrightarrow> set [''D'', ''K'', ''P'', ''C'', ''O'', ''F'', ''G''] \<subseteq> set seen)
      \<and> ancestors_seen (rank # seen) rows)"

definition genus_or_species :: "report_row \<Rightarrow> bool" where
  "genus_or_species r = (fst r = ''G'' \<or> fst r = ''S'')"

definition top_down_report :: "string list \<Rightarrow> bool" where
  "top_down_report report =
     (ancestors_seen [] (report_rows report)
      \<and> distinct (map (\<lambda>r. fst (snd r)) (filter genus_or_species (report_rows report))))"

text \<open>No display name of the report contains the separator of the lineage string.\<close>

definition plain_names :: "string list \<Rightarrow> bool" where
  "plain_names report = (\<forall>r\<in>set (report_rows report). CHR '';'' \<notin> set (snd (snd r)))"

text \<open>
  The ladder after a run of rows: every rank of the table that was read has an entry,
  and an entry is the prefix of its rank followed by a name without the separator.
\<close>

definition ladder_ok :: "string list \<Rightarrow> (string \<rightharpoonup> string) \<Rightarrow> bool" where
  "ladder_ok seen ladder =
     ((\<forall>r\<in>set seen. rank_prefix r \<noteq> None \<longrightarrow> ladder r \<noteq> None)
      \<and> (\<forall>r v. ladder r = Some v
            \<longrightarrow> (\<exists>p n. rank_prefix r = Some p \<and> v = p @ n \<and> CHR '';'' \<notin> set n)))"

text \<open>Lines 75 to 77 alone: the ladder after one row.\<close>

definition climb :: "(string \<rightharpoonup> string) \<Rightarrow> report_row \<Rightarrow> (string \<rightharpoonup> string)" where
  "climb ladder r =
     (case rank_prefix (fst r) of
        None \<Rightarrow> ladder
      | Some p \<Rightarrow> ladder(fst r \<mapsto> p @ snd (snd r)))"

text \<open>The rank prefixes in ladder order, and a line of tab-separated fields.\<close>

definition ladder_prefixes :: "string list" where
  "ladder_prefixes = map snd rank_table"

definition tsv :: "string list \<Rightarrow> string" where
  "tsv fields = join [CHR 0x09] fields @ [CHR 0x0A]"

section \<open>Classification index\<close>

text \<open>
  \<^verbatim>\<open>load_kraken_read_map\<close> (lines 89 to 104), over the lines of the classification
  stream. The dictionary is a map: a later row with the same read id overwrites.
\<close>

fun load_kraken_loop ::
  "string list \<Rightarrow> bool \<Rightarrow> (string \<rightharpoonup> string) \<Rightarrow> py_error + (string \<rightharpoonup> string)" where
  "load_kraken_loop [] classified_only read_to_taxid = Inr read_to_taxid"
| "load_kraken_loop (line # f) classified_only read_to_taxid =
     (if strip line = [] then load_kraken_loop f classified_only read_to_taxid
      else let parts = split_on CHR 0x09 (rstrip_nl line) in
        if length parts < 3 then load_kraken_loop f classified_only read_to_taxid
        else let status = parts ! 0 in
          if classified_only \<and> status \<noteq> ''C''
          then load_kraken_loop f classified_only read_to_taxid
          else (case normalize_read_id (parts ! 1) of
                  Inl e \<Rightarrow> Inl e
                | Inr read_id \<Rightarrow>
                    load_kraken_loop f classified_only
                      (read_to_taxid(read_id \<mapsto> parts ! 2))))"

definition load_kraken_read_map ::
  "string list \<Rightarrow> bool \<Rightarrow> py_error + (string \<rightharpoonup> string)" where
  "load_kraken_read_map kraken classified_only =
     load_kraken_loop kraken classified_only Map.empty"

section \<open>Stream aggregator\<close>

text \<open>
  The accumulators of \<^verbatim>\<open>write_attrition_csv\<close> (lines 143 to 145) are three
  \<^verbatim>\<open>defaultdict\<close>s. A Python dictionary keeps its keys in insertion order, and the
  writer's stable sort depends on it, so each is an association list: assigning to a
  present key keeps its place, a new key goes to the end (\<^const>\<open>AList.update\<close>).
\<close>

record cnt =
  total :: int
  mapped :: int
  unmapped :: int

record acc =
  counts :: "(string \<times> cnt) list"
  gc_sum :: "(string \<times> rat) list"
  gc_n :: "(string \<times> int) list"

definition zero_cnt :: cnt where
  "zero_cnt = \<lparr>total = 0, mapped = 0, unmapped = 0\<rparr>"

definition empty_acc :: acc where
  "empty_acc = \<lparr>counts = [], gc_sum = [], gc_n = []\<rparr>"

text \<open>\<^verbatim>\<open>d[k]\<close> on a defaultdict: the default for an absent key.\<close>

definition dd_get :: "'v \<Rightarrow> (string \<times> 'v) list \<Rightarrow> string \<Rightarrow> 'v" where
  "dd_get dflt d k = (case map_of d k of None \<Rightarrow> dflt | Some v \<Rightarrow> v)"

text \<open>\<^verbatim>\<open>d[k] = f(d[k])\<close> on a defaultdict, the shape of every \<^verbatim>\<open>+=\<close> of the loop.\<close>

definition dd_upd :: "'v \<Rightarrow> ('v \<Rightarrow> 'v) \<Rightarrow> string \<Rightarrow> (string \<times> 'v) list \<Rightarrow> (string \<times> 'v) list" where
  "dd_upd dflt f k d = AList.update k (f (dd_get dflt d k)) d"

text \<open>
  The partition label \<^verbatim>\<open>file_key\<close>: the two call sites pass \<^verbatim>\<open>"mapped"\<close> and
  \<^verbatim>\<open>"unmapped"\<close>, the keys of the inner dictionary beside \<^verbatim>\<open>"total"\<close>.
\<close>

datatype partition = Mapped | Unmapped

definition bump :: "partition \<Rightarrow> cnt \<Rightarrow> cnt" where
  "bump file_key c =
     (case file_key of
        Mapped \<Rightarrow> c\<lparr>mapped := mapped c + 1\<rparr>
      | Unmapped \<Rightarrow> c\<lparr>unmapped := unmapped c + 1\<rparr>)"

text \<open>Lines 133 to 136: the four updates for a record that joined to a lineage.\<close>

definition count_hit :: "partition \<Rightarrow> string \<Rightarrow> string \<Rightarrow> acc \<Rightarrow> acc" where
  "count_hit file_key lineage seq st =
     (let c1 = dd_upd zero_cnt (\<lambda>c. c\<lparr>total := total c + 1\<rparr>) lineage (counts st);
          c2 = dd_upd zero_cnt (bump file_key) lineage c1;
          g = dd_upd 0 (\<lambda>x. x + gc_fraction seq) lineage (gc_sum st);
          n = dd_upd 0 (\<lambda>x. x + 1) lineage (gc_n st)
      in \<lparr>counts = c2, gc_sum = g, gc_n = n\<rparr>)"

text \<open>
  Lines 128 to 131: the join. \<^verbatim>\<open>dict.get\<close> gives None for an absent key, and
  \<^verbatim>\<open>taxid_to_lineage.get(None)\<close> is None; \<^verbatim>\<open>not lineage\<close> holds for None and for
  the empty string.
\<close>

definition lookup_lineage ::
  "(string \<rightharpoonup> string) \<Rightarrow> (string \<rightharpoonup> string) \<Rightarrow> string \<Rightarrow> string option" where
  "lookup_lineage read_to_taxid taxid_to_lineage read_id =
     (case read_to_taxid read_id of
        None \<Rightarrow> None
      | Some taxid \<Rightarrow>
          (case taxid_to_lineage taxid of
             None \<Rightarrow> None
           | Some lineage \<Rightarrow> if lineage = [] then None else Some lineage))"

text \<open>\<^verbatim>\<open>f.readline()\<close> on the remaining lines: the empty string at the end of input.\<close>

fun readline :: "string list \<Rightarrow> string \<times> string list" where
  "readline [] = ([], [])"
| "readline (l # ls) = (l, ls)"

text \<open>
  \<^verbatim>\<open>process_fastq\<close> (lines 115 to 137). The \<^verbatim>\<open>while True\<close> loop ends at the first
  empty header or quality line; an exception of \<^verbatim>\<open>normalize_read_id\<close> leaves the
  loop and the function.
\<close>

function process_fastq ::
  "string list \<Rightarrow> (string \<rightharpoonup> string) \<Rightarrow> (string \<rightharpoonup> string) \<Rightarrow> partition \<Rightarrow> acc
     \<Rightarrow> py_error + acc" where
  "process_fastq f read_to_taxid taxid_to_lineage file_key st =
     (case readline f of (h, f1) \<Rightarrow>
        if h = [] then Inr st
        else (case readline f1 of (seq, f2) \<Rightarrow>
          (case readline f2 of (sep, f3) \<Rightarrow>
            (case readline f3 of (qual, f4) \<Rightarrow>
               if qual = [] then Inr st
               else (case normalize_read_id h of
                       Inl e \<Rightarrow> Inl e
                     | Inr read_id \<Rightarrow>
                         (case lookup_lineage read_to_taxid taxid_to_lineage read_id of
                            None \<Rightarrow>
                              process_fastq f4 read_to_taxid taxid_to_lineage file_key st
                          | Some lineage \<Rightarrow>
                              process_fastq f4 read_to_taxid taxid_to_lineage file_key
                                (count_hit file_key lineage seq st)))))))"
  by pat_completeness auto
termination
proof (relation "measure (\<lambda>(f, _). length f)")
  have le: "length (snd (readline g)) \<le> length g" for g
    by (cases g) simp_all
  have less: "fst (readline g) \<noteq> [] \<Longrightarrow> length (snd (readline g)) < length g" for g
    by (cases g) simp_all
  have shrink: "length f4 < length f"
    if "(h, f1) = readline f" "h \<noteq> []" "(seq, f2) = readline f1"
       "(sep, f3) = readline f2" "(qual, f4) = readline f3"
    for f f1 f2 f3 f4 :: "string list" and h seq sep qual :: string
  proof -
    have "length f1 < length f" using less [of f] that(1,2) by (metis fst_conv snd_conv)
    moreover have "length f2 \<le> length f1" using le [of f1] that(3) by (metis snd_conv)
    moreover have "length f3 \<le> length f2" using le [of f2] that(4) by (metis snd_conv)
    moreover have "length f4 \<le> length f3" using le [of f3] that(5) by (metis snd_conv)
    ultimately show ?thesis by simp
  qed
  show "wf (measure (\<lambda>(f, _). length f))" by simp
  show "((f4, read_to_taxid, taxid_to_lineage, file_key, st),
         f, read_to_taxid, taxid_to_lineage, file_key, st)
        \<in> measure (\<lambda>(f, _). length f)"
    if "(h, f1) = readline f" "h \<noteq> []" "(seq, f2) = readline f1"
       "(sep, f3) = readline f2" "(qual, f4) = readline f3"
    for f f1 f2 f3 f4 read_to_taxid taxid_to_lineage file_key and st :: acc
      and h seq sep qual
    using shrink [OF that] by simp
  show "((f4, read_to_taxid, taxid_to_lineage, file_key, count_hit file_key lineage seq st),
         f, read_to_taxid, taxid_to_lineage, file_key, st)
        \<in> measure (\<lambda>(f, _). length f)"
    if "(h, f1) = readline f" "h \<noteq> []" "(seq, f2) = readline f1"
       "(sep, f3) = readline f2" "(qual, f4) = readline f3"
    for f f1 f2 f3 f4 read_to_taxid taxid_to_lineage file_key lineage and st :: acc
      and h seq sep qual
    using shrink [OF that] by simp
qed

declare process_fastq.simps [simp del]

text \<open>
  A read-stream file that consists of whole records: four lines each. A line that
  \<^verbatim>\<open>readline\<close> returns before the end of input is never empty, and the loop looks
  at that for the header and the quality line.
\<close>

type_synonym fastq_record = "string \<times> string \<times> string \<times> string"

definition fastq_lines :: "fastq_record list \<Rightarrow> string list" where
  "fastq_lines recs = concat (map (\<lambda>(h, s, p, q). [h, s, p, q]) recs)"

definition whole_record :: "fastq_record \<Rightarrow> bool" where
  "whole_record r = (case r of (h, s, p, q) \<Rightarrow> h \<noteq> [] \<and> q \<noteq> [])"

text \<open>A header on which \<^verbatim>\<open>normalize_read_id\<close> finds no word.\<close>

definition blank_header :: "string \<Rightarrow> bool" where
  "blank_header s = (strip s = [] \<or> strip s = ''@'')"

text \<open>One whole record of the loop, when its header normalizes.\<close>

definition record_step ::
  "(string \<rightharpoonup> string) \<Rightarrow> (string \<rightharpoonup> string) \<Rightarrow> partition \<Rightarrow> fastq_record \<Rightarrow> acc \<Rightarrow> acc" where
  "record_step read_to_taxid taxid_to_lineage file_key r st =
     (case r of (h, seq, sep, qual) \<Rightarrow>
        (case normalize_read_id h of
           Inl e \<Rightarrow> st
         | Inr read_id \<Rightarrow>
             (case lookup_lineage read_to_taxid taxid_to_lineage read_id of
                None \<Rightarrow> st
              | Some lineage \<Rightarrow> count_hit file_key lineage seq st)))"

text \<open>Lines 143 to 148: the mapped pass, then the unmapped pass, on fresh accumulators.\<close>

definition aggregate ::
  "(string \<rightharpoonup> string) \<Rightarrow> (string \<rightharpoonup> string) \<Rightarrow> string list \<Rightarrow> string list
     \<Rightarrow> py_error + acc" where
  "aggregate read_to_taxid taxid_to_lineage mapped_fastq unmapped_fastq =
     (case process_fastq mapped_fastq read_to_taxid taxid_to_lineage Mapped empty_acc of
        Inl e \<Rightarrow> Inl e
      | Inr st \<Rightarrow> process_fastq unmapped_fastq read_to_taxid taxid_to_lineage Unmapped st)"

text \<open>Any sequence of passes over the shared accumulators.\<close>

fun run_passes ::
  "(partition \<times> string list) list \<Rightarrow> (string \<rightharpoonup> string) \<Rightarrow> (string \<rightharpoonup> string) \<Rightarrow> acc
     \<Rightarrow> py_error + acc" where
  "run_passes [] read_to_taxid taxid_to_lineage st = Inr st"
| "run_passes ((file_key, f) # ps) read_to_taxid taxid_to_lineage st =
     (case process_fastq f read_to_taxid taxid_to_lineage file_key st of
        Inl e \<Rightarrow> Inl e
      | Inr st' \<Rightarrow> run_passes ps read_to_taxid taxid_to_lineage st')"

text \<open>
  What the accumulators hold for each lineage, without the insertion order of the keys.
\<close>

type_synonym acc_view = "(string \<rightharpoonup> cnt) \<times> (string \<rightharpoonup> rat) \<times> (string \<rightharpoonup> int)"

definition acc_view :: "acc \<Rightarrow> acc_view" where
  "acc_view st = (map_of (counts st), map_of (gc_sum st), map_of (gc_n st))"

definition view_hit :: "partition \<Rightarrow> string \<Rightarrow> rat \<Rightarrow> acc_view \<Rightarrow> acc_view" where
  "view_hit file_key lineage g v =
     (case v of (C, S, N) \<Rightarrow>
        (C(lineage \<mapsto>
             bump file_key
               ((case C lineage of None \<Rightarrow> zero_cnt | Some c \<Rightarrow> c)
                  \<lparr>total := total (case C lineage of None \<Rightarrow> zero_cnt | Some c \<Rightarrow> c) + 1\<rparr>)),
         S(lineage \<mapsto> (case S lineage of None \<Rightarrow> 0 | Some x \<Rightarrow> x) + g),
         N(lineage \<mapsto> (case N lineage of None \<Rightarrow> 0 | Some n \<Rightarrow> n) + 1)))"

definition view_step ::
  "(string \<rightharpoonup> string) \<Rightarrow> (string \<rightharpoonup> string) \<Rightarrow> partition \<Rightarrow> fastq_record \<Rightarrow> acc_view
     \<Rightarrow> acc_view" where
  "view_step read_to_taxid taxid_to_lineage file_key r v =
     (case r of (h, seq, sep, qual) \<Rightarrow>
        (case normalize_read_id h of
           Inl e \<Rightarrow> v
         | Inr read_id \<Rightarrow>
             (case lookup_lineage read_to_taxid taxid_to_lineage read_id of
                None \<Rightarrow> v
              | Some lineage \<Rightarrow> view_hit file_key lineage (gc_fraction seq) v)))"

text \<open>The invariant of the accumulators.\<close>

definition cnt_ok :: "cnt \<Rightarrow> bool" where
  "cnt_ok c = (0 \<le> mapped c \<and> 0 \<le> unmapped c \<and> total c = mapped c + unmapped c
               \<and> 1 \<le> total c)"

definition acc_inv :: "acc \<Rightarrow> bool" where
  "acc_inv st =
     (distinct (map fst (counts st))
      \<and> map fst (gc_sum st) = map fst (counts st)
      \<and> map fst (gc_n st) = map fst (counts st)
      \<and> (\<forall>kc\<in>set (counts st). cnt_ok (snd kc)
            \<and> map_of (gc_n st) (fst kc) = Some (total (snd kc))))"

section \<open>Attrition table writer\<close>

text \<open>
  One data row of the table (line 158). The CSV rendering of \<^verbatim>\<open>csv.writer\<close> is
  not modelled: a row is its five values.
\<close>

record row =
  lineage_col :: string
  total_col :: int
  mapped_prop :: rat
  unmapped_prop :: rat
  avg_gc_col :: rat

text \<open>Python's true division of two integers.\<close>

definition truediv :: "int \<Rightarrow> int \<Rightarrow> py_error + rat" where
  "truediv a b = (if b = 0 then Inl ZeroDivisionError else Inr (of_int a / of_int b))"

text \<open>
  The loop of lines 154 to 158 over the sorted items. The list of line 158 is evaluated
  left to right, after \<^verbatim>\<open>avg_gc\<close>.
\<close>

fun write_rows ::
  "(string \<times> cnt) list \<Rightarrow> (string \<times> rat) list \<Rightarrow> (string \<times> int) list \<Rightarrow> int
     \<Rightarrow> py_error + row list" where
  "write_rows [] gs gn min_reads = Inr []"
| "write_rows ((lineage, c) # items) gs gn min_reads =
     (if total c < min_reads then write_rows items gs gn min_reads
      else let avg_gc = (if dd_get 0 gn lineage \<noteq> 0
                         then dd_get 0 gs lineage / of_int (dd_get 0 gn lineage)
                         else 0)
        in (case truediv (mapped c) (total c) of
              Inl e \<Rightarrow> Inl e
            | Inr mp \<Rightarrow>
                (case truediv (unmapped c) (total c) of
                   Inl e \<Rightarrow> Inl e
                 | Inr up \<Rightarrow>
                     (case write_rows items gs gn min_reads of
                        Inl e \<Rightarrow> Inl e
                      | Inr rows \<Rightarrow>
                          Inr (\<lparr>lineage_col = lineage, total_col = total c,
                                mapped_prop = mp, unmapped_prop = up,
                                avg_gc_col = avg_gc\<rparr> # rows)))))"

text \<open>
  \<^verbatim>\<open>sorted(counts.items(), key=..., reverse=True)\<close>: Python's sort is stable, also
  with \<^verbatim>\<open>reverse=True\<close>, so it is the stable sort on the negated key.
\<close>

definition sorted_items :: "(string \<times> cnt) list \<Rightarrow> (string \<times> cnt) list" where
  "sorted_items items = sort_key (\<lambda>kv. - total (snd kv)) items"

definition write_table :: "acc \<Rightarrow> int \<Rightarrow> py_error + row list" where
  "write_table st min_reads =
     write_rows (sorted_items (counts st)) (gc_sum st) (gc_n st) min_reads"


text \<open>The row the writer emits for one item of the accumulators.\<close>

definition item_row :: "acc \<Rightarrow> string \<times> cnt \<Rightarrow> row" where
  "item_row st kc =
     \<lparr>lineage_col = fst kc, total_col = total (snd kc),
      mapped_prop = of_int (mapped (snd kc)) / of_int (total (snd kc)),
      unmapped_prop = of_int (unmapped (snd kc)) / of_int (total (snd kc)),
      avg_gc_col = (if dd_get 0 (gc_n st) (fst kc) \<noteq> 0
                    then dd_get 0 (gc_sum st) (fst kc) / of_int (dd_get 0 (gc_n st) (fst kc))
                    else 0)\<rparr>"

section \<open>Reference cache\<close>




















section \<open>Example inputs\<close>

text \<open>A classification stream, two join maps and three read-stream records.\<close>

definition ex_kraken :: "string list" where
  "ex_kraken =
     [tsv [''C'', ''@r1 extra'', ''5''], tsv [''U'', ''r2'', ''0''], tsv [''C'', ''r3'', ''7'']]"

definition ex_read_to_taxid :: "string \<rightharpoonup> string" where
  "ex_read_to_taxid = [''r1'' \<mapsto> ''5'', ''r2'' \<mapsto> ''0'', ''r3'' \<mapsto> ''7'']"

definition ex_taxid_to_lineage :: "string \<rightharpoonup> string" where
  "ex_taxid_to_lineage = [''5'' \<mapsto> ''g__A'', ''7'' \<mapsto> ''g__B'']"

definition fastq_of :: "string \<Rightarrow> string \<Rightarrow> fastq_record" where
  "fastq_of read_id bases =
     (CHR ''@'' # read_id @ [CHR 0x0A], bases @ [CHR 0x0A], ''+'' @ [CHR 0x0A],
      replicate (length bases) CHR ''I'' @ [CHR 0x0A])"

definition ex_rec1 :: fastq_record where
  "ex_rec1 = fastq_of ''r1'' ''GCAT''"

definition ex_rec3 :: fastq_record where
  "ex_rec3 = fastq_of ''r3'' ''GGGG''"

definition ex_blank_rec :: fastq_record where
  "ex_blank_rec = ([CHR 0x0A], ''ACGT'' @ [CHR 0x0A], ''+'' @ [CHR 0x0A], ''IIII'' @ [CHR 0x0A])"

text \<open>
  The accumulators of the specification's round-trip example: lineage A with three
  mapped reads (GC 0.5, 0.6, 0.7) and one unmapped read (GC 0.4), lineage B with one
  mapped read (GC 1.0).
\<close>

definition ex_acc :: acc where
  "ex_acc =
     \<lparr>counts = [(''B'', \<lparr>total = 1, mapped = 1, unmapped = 0\<rparr>),
                (''A'', \<lparr>total = 4, mapped = 3, unmapped = 1\<rparr>)],
      gc_sum = [(''B'', 1), (''A'', 11 / 5)],
      gc_n = [(''B'', 1), (''A'', 4)]\<rparr>"

text \<open>Two rank reports of seven and eight rows; in the first a name holds a semicolon.\<close>

definition report_line :: "string \<Rightarrow> string \<Rightarrow> string \<Rightarrow> string" where
  "report_line rank taxid name = tsv [''1.0'', ''10'', ''1'', rank, taxid, ''  '' @ name]"

definition ex_report_semicolon :: "string list" where
  "ex_report_semicolon =
     [report_line ''D'' ''2'' ''a;b'', report_line ''K'' ''3'' ''k'',
      report_line ''P'' ''4'' ''p'', report_line ''C'' ''5'' ''c'',
      report_line ''O'' ''6'' ''o'', report_line ''F'' ''7'' ''f'',
      report_line ''G'' ''8'' ''g'']"

definition ex_report :: "string list" where
  "ex_report =
     [report_line ''D'' ''2'' ''Bacteria'', report_line ''K'' ''3'' ''k'',
      report_line ''P'' ''4'' ''p'', report_line ''C'' ''5'' ''c'',
      report_line ''O'' ''6'' ''o'', report_line ''F'' ''7'' ''f'',
      report_line ''G'' ''8'' ''g'', report_line ''S'' ''9'' ''g s'']"


section \<open>Properties\<close>

lemma isspace_not_gc: "isspace c \<Longrightarrow> c \<notin> set ''GgCc''"
  by (auto simp: isspace_def)

lemma gc_count_dropWhile: "gc_count (dropWhile isspace s) = gc_count s"
  by (induction s) (auto simp: gc_count_def dest: isspace_not_gc)

lemma gc_count_rev: "gc_count (rev s) = gc_count s"
  by (simp add: gc_count_def flip: rev_filter)

lemma gc_count_strip: "gc_count (strip s) = gc_count s"
  by (simp add: strip_def gc_count_rev gc_count_dropWhile)

lemma char_code:
  "c = CHR ''G'' \<longleftrightarrow> of_char c = (0x47 :: nat)" "c = CHR ''g'' \<longleftrightarrow> of_char c = (0x67 :: nat)"
  "c = CHR ''C'' \<longleftrightarrow> of_char c = (0x43 :: nat)" "c = CHR ''c'' \<longleftrightarrow> of_char c = (0x63 :: nat)"
  "c = CHR 0xDF \<longleftrightarrow> of_char c = (0xDF :: nat)"
proof -
  have e: "c = d \<longleftrightarrow> of_char c = (of_char d :: nat)" for d by simp
  show "c = CHR ''G'' \<longleftrightarrow> of_char c = (0x47 :: nat)" by (subst e) simp
  show "c = CHR ''g'' \<longleftrightarrow> of_char c = (0x67 :: nat)" by (subst e) simp
  show "c = CHR ''C'' \<longleftrightarrow> of_char c = (0x43 :: nat)" by (subst e) simp
  show "c = CHR ''c'' \<longleftrightarrow> of_char c = (0x63 :: nat)" by (subst e) simp
  show "c = CHR 0xDF \<longleftrightarrow> of_char c = (0xDF :: nat)" by (subst e) simp
qed

lemma upper_char_gc:
  "count_list (upper_char c) (of_char CHR ''G'') + count_list (upper_char c) (of_char CHR ''C'')
     = (if c \<in> set ''GgCc'' then 1 else 0)"
  unfolding upper_char_def Let_def by (auto simp: char_code)

lemma upper_char_length:
  "length (upper_char c) = (if c = CHR 0xDF then 2 else 1)"
  unfolding upper_char_def Let_def by (auto simp: char_code)

lemma count_list_append': "count_list (xs @ ys) a = count_list xs a + count_list ys a"
  by (induction xs) auto

lemma count_upper_gc:
  "count_list (upper s) (of_char CHR ''G'') + count_list (upper s) (of_char CHR ''C'') = gc_count s"
proof (induction s)
  case Nil
  then show ?case by (simp add: upper_def gc_count_def)
next
  case (Cons c s)
  have "count_list (upper (c # s)) (of_char CHR ''G'') + count_list (upper (c # s)) (of_char CHR ''C'')
      = (count_list (upper_char c) (of_char CHR ''G'') + count_list (upper_char c) (of_char CHR ''C''))
        + (count_list (upper s) (of_char CHR ''G'') + count_list (upper s) (of_char CHR ''C''))"
    by (simp add: upper_def count_list_append')
  also have "\<dots> = (if c \<in> set ''GgCc'' then 1 else 0) + gc_count s"
    unfolding upper_char_gc Cons.IH ..
  also have "\<dots> = gc_count (c # s)" by (simp add: gc_count_def)
  finally show ?case .
qed

lemma upper_Cons: "upper (c # s) = upper_char c @ upper s"
  by (simp add: upper_def)

lemma length_upper: "length (upper s) = length s + count_list s (CHR 0xDF)"
proof (induction s)
  case Nil
  then show ?case by (simp add: upper_def)
next
  case (Cons c s)
  show ?case
    unfolding upper_Cons length_append Cons.IH upper_char_length
    by (cases "c = CHR 0xDF") simp_all
qed

lemma upper_Nil: "upper s = [] \<longleftrightarrow> s = []"
proof (cases s)
  case Nil
  then show ?thesis by (simp add: upper_def)
next
  case (Cons c cs)
  have "length (upper_char c) \<noteq> 0" unfolding upper_char_length by simp
  then show ?thesis unfolding Cons upper_Cons by simp
qed

lemma gc_fraction_eq:
  "gc_fraction s =
     (if strip s = [] then 0 else of_nat (gc_count s) / of_nat (length (upper (strip s))))"
proof -
  have "gc_fraction s =
     (if upper (strip s) = [] then 0
      else of_nat (gc_count (strip s)) / of_nat (length (upper (strip s))))"
    unfolding gc_fraction_def Let_def count_upper_gc ..
  then show ?thesis unfolding upper_Nil gc_count_strip .
qed

subsection \<open>Read-id normalization\<close>

lemma strip_no_space_ends:
  assumes "strip s \<noteq> []"
  shows "\<not> isspace (hd (strip s))" and "\<not> isspace (last (strip s))"
proof -
  let ?a = "dropWhile isspace s"
  let ?b = "dropWhile isspace (rev ?a)"
  have b: "?b \<noteq> []" using assms by (simp add: strip_def del: dropWhile_eq_Nil_conv)
  then have hb: "\<not> isspace (hd ?b)" by (rule hd_dropWhile)
  then show "\<not> isspace (last (strip s))" using b by (simp add: strip_def last_rev del: dropWhile_eq_Nil_conv)
  have a: "?a \<noteq> []" using b by (auto simp del: dropWhile_eq_Nil_conv)
  then have ha: "\<not> isspace (hd ?a)" by (rule hd_dropWhile)
  have "last (rev ?a) = hd ?a" using a by (simp add: last_rev del: dropWhile_eq_Nil_conv)
  moreover have "last ?b = last (rev ?a)"
  proof -
    have "rev ?a = takeWhile isspace (rev ?a) @ ?b" by simp
    then show ?thesis using b by (metis last_appendR)
  qed
  moreover have "hd (strip s) = last ?b" using b by (simp add: strip_def hd_rev del: dropWhile_eq_Nil_conv)
  ultimately show "\<not> isspace (hd (strip s))" using ha by simp
qed

lemma split_ws_Nil: "split_ws s = [] \<longleftrightarrow> (\<forall>c\<in>set s. isspace c)"
proof -
  have "split_ws s = [] \<longleftrightarrow> dropWhile isspace s = []"
    by (subst split_ws.simps) (simp split: list.splits del: dropWhile_eq_Nil_conv)
  then show ?thesis by (simp add: dropWhile_eq_Nil_conv)
qed

lemma normalize_read_id_error: "normalize_read_id s = Inl e \<Longrightarrow> e = IndexError"
  by (auto simp: normalize_read_id_def Let_def split: list.splits if_splits)

lemma normalize_read_id_raises:
  "normalize_read_id s = Inl IndexError \<longleftrightarrow> blank_header s"
proof (cases "strip s")
  case Nil
  have "split_ws [] = []" by (simp add: split_ws_Nil)
  then show ?thesis using Nil
    by (simp add: normalize_read_id_def blank_header_def)
next
  case (Cons c cs)
  show ?thesis
  proof (cases "cs = []")
    case True
    have nc: "\<not> isspace c" using strip_no_space_ends(1) [of s] Cons by simp
    have e: "split_ws [] = []" by (simp add: split_ws_Nil)
    have "split_ws [c] \<noteq> []" using nc by (simp add: split_ws_Nil)
    then show ?thesis using Cons True e
      by (cases "c = CHR ''@''")
         (auto simp: normalize_read_id_def blank_header_def Let_def split: list.splits)
  next
    case False
    have "\<not> isspace (last (strip s))" using strip_no_space_ends(2) [of s] Cons by simp
    then have l: "\<not> isspace (last cs)" using Cons False by simp
    have "last cs \<in> set cs" using False by simp
    then have "\<not> (\<forall>x\<in>set cs. isspace x)" "\<not> (\<forall>x\<in>set (c # cs). isspace x)"
      using l by auto
    then have "split_ws cs \<noteq> []" "split_ws (c # cs) \<noteq> []"
      by (simp_all only: split_ws_Nil not_False_eq_True)
    then show ?thesis using Cons False
      by (auto simp: normalize_read_id_def blank_header_def Let_def split: list.splits)
  qed
qed

subsection \<open>The classification loop\<close>

lemma load_kraken_loop_Cons:
  "load_kraken_loop (line # f) co m =
     (if strip line = [] \<or> length (split_on CHR 0x09 (rstrip_nl line)) < 3
         \<or> (co \<and> split_on CHR 0x09 (rstrip_nl line) ! 0 \<noteq> ''C'')
      then load_kraken_loop f co m
      else (case normalize_read_id (split_on CHR 0x09 (rstrip_nl line) ! 1) of
              Inl e \<Rightarrow> Inl e
            | Inr read_id \<Rightarrow>
                load_kraken_loop f co
                  (m(read_id \<mapsto> split_on CHR 0x09 (rstrip_nl line) ! 2))))"
  by (auto simp: Let_def)

lemma load_kraken_loop_error: "load_kraken_loop f co m = Inl e \<Longrightarrow> e = IndexError"
proof (induction f arbitrary: m)
  case Nil
  then show ?case by simp
next
  case (Cons line f)
  then show ?case
    unfolding load_kraken_loop_Cons
    by (auto split: if_splits sum.splits dest: normalize_read_id_error)
qed

lemma load_kraken_loop_blank_row:
  assumes "strip line \<noteq> []"
    and "3 \<le> length (split_on CHR 0x09 (rstrip_nl line))"
    and "blank_header (split_on CHR 0x09 (rstrip_nl line) ! 1)"
    and "co \<longrightarrow> split_on CHR 0x09 (rstrip_nl line) ! 0 = ''C''"
  shows "load_kraken_loop (pre @ line # post) co m = Inl IndexError"
proof (induction pre arbitrary: m)
  case Nil
  have "normalize_read_id (split_on CHR 0x09 (rstrip_nl line) ! 1) = Inl IndexError"
    using assms(3) by (simp add: normalize_read_id_raises)
  then show ?case using assms(1,2,4) unfolding append_Nil load_kraken_loop_Cons by auto
next
  case (Cons l pre)
  show ?case
  proof (cases "load_kraken_loop ((l # pre) @ line # post) co m")
    case (Inl e)
    then show ?thesis using load_kraken_loop_error by blast
  next
    case (Inr m')
    then show ?thesis using Cons.IH unfolding append_Cons load_kraken_loop_Cons
      by (auto split: if_splits sum.splits)
  qed
qed

lemma load_kraken_loop_dom:
  "load_kraken_loop f False m = Inr mF \<Longrightarrow> dom m' \<subseteq> dom m
     \<Longrightarrow> \<exists>mT. load_kraken_loop f True m' = Inr mT \<and> dom mT \<subseteq> dom mF"
proof (induction f arbitrary: m m')
  case Nil
  then show ?case by simp
next
  case (Cons line f)
  let ?parts = "split_on CHR 0x09 (rstrip_nl line)"
  show ?case
  proof (cases "strip line = [] \<or> length ?parts < 3")
    case True
    then have "load_kraken_loop f False m = Inr mF"
      using Cons.prems(1) unfolding load_kraken_loop_Cons by auto
    from Cons.IH [OF this Cons.prems(2)] show ?thesis
      using True unfolding load_kraken_loop_Cons by auto
  next
    case False
    then obtain rid where rid: "normalize_read_id (?parts ! 1) = Inr rid"
      and rest: "load_kraken_loop f False (m(rid \<mapsto> ?parts ! 2)) = Inr mF"
      using Cons.prems(1) unfolding load_kraken_loop_Cons by (auto split: sum.splits)
    have ih: "dom m'' \<subseteq> dom (m(rid \<mapsto> ?parts ! 2))
        \<Longrightarrow> \<exists>mT. load_kraken_loop f True m'' = Inr mT \<and> dom mT \<subseteq> dom mF" for m''
      by (rule Cons.IH [OF rest])
    show ?thesis
    proof (cases "?parts ! 0 = ''C''")
      case True
      have "dom (m'(rid \<mapsto> ?parts ! 2)) \<subseteq> dom (m(rid \<mapsto> ?parts ! 2))"
        using Cons.prems(2) by auto
      from ih [OF this] show ?thesis using False rid True
        unfolding load_kraken_loop_Cons by simp
    next
      case notC: False
      have "dom m' \<subseteq> dom (m(rid \<mapsto> ?parts ! 2))" using Cons.prems(2) by auto
      from ih [OF this] show ?thesis using False notC
        unfolding load_kraken_loop_Cons by simp
    qed
  qed
qed

subsection \<open>The read-stream loop on whole records\<close>

lemma process_fastq_short:
  "length f < 4 \<Longrightarrow> process_fastq f r2t t2l key st = Inr st"
proof -
  assume "length f < 4"
  then consider "f = []" | a where "f = [a]" | a b where "f = [a, b]"
    | a b c where "f = [a, b, c]"
    by (cases f; simp) (metis (no_types, opaque_lifting) Suc_less_eq length_0_conv length_Suc_conv
          less_Suc_eq numeral_3_eq_3 numeral_Bit0 Suc_1 add_2_eq_Suc' less_nat_zero_code
          neq_Nil_conv list.size(4))
  then show ?thesis
    by cases (simp_all add: process_fastq.simps)
qed

lemma process_fastq_record:
  assumes "h \<noteq> []" and "q \<noteq> []"
  shows "process_fastq (h # s # p # q # rest) r2t t2l key st =
     (case normalize_read_id h of
        Inl e \<Rightarrow> Inl e
      | Inr read_id \<Rightarrow>
          (case lookup_lineage r2t t2l read_id of
             None \<Rightarrow> process_fastq rest r2t t2l key st
           | Some lineage \<Rightarrow> process_fastq rest r2t t2l key (count_hit key lineage s st)))"
  using assms by (subst process_fastq.simps) simp

lemma process_fastq_records:
  assumes "\<forall>r\<in>set recs. whole_record r" and "length rest0 < 4"
  shows "process_fastq (fastq_lines recs @ rest0) r2t t2l key st =
     (if \<exists>r\<in>set recs. blank_header (fst r) then Inl IndexError
      else Inr (fold (record_step r2t t2l key) recs st))"
  using assms(1)
proof (induction recs arbitrary: st)
  case Nil
  then show ?case using assms(2) by (simp add: fastq_lines_def process_fastq_short)
next
  case (Cons r recs)
  obtain h s p q where r: "r = (h, s, p, q)" by (cases r) auto
  have w: "h \<noteq> []" "q \<noteq> []" using Cons.prems r by (simp_all add: whole_record_def)
  have lines: "fastq_lines (r # recs) @ rest0 = h # s # p # q # (fastq_lines recs @ rest0)"
    by (simp add: fastq_lines_def r)
  have ih: "process_fastq (fastq_lines recs @ rest0) r2t t2l key st' =
     (if \<exists>r\<in>set recs. blank_header (fst r) then Inl IndexError
      else Inr (fold (record_step r2t t2l key) recs st'))" for st'
    using Cons.IH Cons.prems by simp
  show ?case
  proof (cases "normalize_read_id h")
    case (Inl e)
    then have "e = IndexError" by (rule normalize_read_id_error)
    then have "blank_header h" using Inl by (simp add: normalize_read_id_raises)
    then show ?thesis
      unfolding lines process_fastq_record [OF w] using Inl \<open>e = IndexError\<close>
      by (simp add: r)
  next
    case (Inr rid)
    then have nb: "\<not> blank_header h" using normalize_read_id_raises [of h] by simp
    have step: "record_step r2t t2l key (h, s, p, q) st =
        (case lookup_lineage r2t t2l rid of None \<Rightarrow> st | Some l \<Rightarrow> count_hit key l s st)"
      by (simp add: record_step_def Inr)
    show ?thesis
      unfolding lines process_fastq_record [OF w]
      using Inr nb by (simp add: r ih step split: option.splits)
  qed
qed

subsection \<open>The accumulators as maps\<close>

lemma map_of_dd_upd: "map_of (dd_upd dflt f k d) = (map_of d)(k \<mapsto> f (dd_get dflt d k))"
  by (simp add: dd_upd_def update_conv')

lemma keys_dd_upd:
  "map fst (dd_upd dflt f k d) =
     (if k \<in> set (map fst d) then map fst d else map fst d @ [k])"
  by (simp add: dd_upd_def update_keys)

lemma acc_view_count_hit:
  "acc_view (count_hit key l seq st) = view_hit key l (gc_fraction seq) (acc_view st)"
  by (simp add: acc_view_def count_hit_def view_hit_def Let_def map_of_dd_upd dd_get_def)

lemma acc_view_record_step:
  "acc_view (record_step r2t t2l key r st) = view_step r2t t2l key r (acc_view st)"
  by (simp add: record_step_def view_step_def acc_view_count_hit
           split: prod.splits sum.splits option.splits)

lemma acc_view_fold:
  "acc_view (fold (record_step r2t t2l key) recs st)
     = fold (view_step r2t t2l key) recs (acc_view st)"
  by (induction recs arbitrary: st) (simp_all add: acc_view_record_step)

lemma view_hit_commute:
  "view_hit key l g (view_hit key l' g' v) = view_hit key l' g' (view_hit key l g v)"
proof (cases v)
  case (fields C S N)
  show ?thesis
  proof (cases "l = l'")
    case True
    then show ?thesis
      by (cases key) (simp_all add: fields view_hit_def bump_def add.commute add.left_commute)
  next
    case False
    then show ?thesis
      by (simp add: fields view_hit_def fun_upd_twist)
  qed
qed

lemma view_step_commute:
  "view_step r2t t2l key r (view_step r2t t2l key r' v)
     = view_step r2t t2l key r' (view_step r2t t2l key r v)"
  by (simp add: view_step_def view_hit_commute split: prod.splits sum.splits option.splits)

lemma view_fold_permuted:
  assumes "mset recs' = mset recs"
  shows "fold (view_step r2t t2l key) recs' v = fold (view_step r2t t2l key) recs v"
proof -
  have "view_step r2t t2l key x \<circ> view_step r2t t2l key y
          = view_step r2t t2l key y \<circ> view_step r2t t2l key x" for x y
    by (rule ext) (simp add: view_step_commute)
  then have "fold (view_step r2t t2l key) recs' = fold (view_step r2t t2l key) recs"
    using assms by (intro fold_multiset_equiv) auto
  then show ?thesis by simp
qed

lemma process_fastq_permuted:
  assumes "\<forall>r\<in>set recs. whole_record r" and "mset recs' = mset recs"
    and "acc_view st' = acc_view st" and "length rest0 < 4"
  shows "(process_fastq (fastq_lines recs' @ rest0) r2t t2l key st' = Inl IndexError
            \<and> process_fastq (fastq_lines recs @ rest0) r2t t2l key st = Inl IndexError)
         \<or> (\<exists>a' a. process_fastq (fastq_lines recs' @ rest0) r2t t2l key st' = Inr a'
               \<and> process_fastq (fastq_lines recs @ rest0) r2t t2l key st = Inr a
               \<and> acc_view a' = acc_view a)"
proof -
  have s: "set recs' = set recs" using assms(2) by (rule mset_eq_setD)
  then have w': "\<forall>r\<in>set recs'. whole_record r" using assms(1) by simp
  have p: "process_fastq (fastq_lines recs @ rest0) r2t t2l key st =
     (if \<exists>r\<in>set recs. blank_header (fst r) then Inl IndexError
      else Inr (fold (record_step r2t t2l key) recs st))"
    using process_fastq_records [OF assms(1,4)] by simp
  have p': "process_fastq (fastq_lines recs' @ rest0) r2t t2l key st' =
     (if \<exists>r\<in>set recs. blank_header (fst r) then Inl IndexError
      else Inr (fold (record_step r2t t2l key) recs' st'))"
    using process_fastq_records [OF w' assms(4)] s by simp
  have "acc_view (fold (record_step r2t t2l key) recs' st')
          = acc_view (fold (record_step r2t t2l key) recs st)"
    by (simp add: acc_view_fold assms(3) view_fold_permuted [OF assms(2)])
  then show ?thesis unfolding p p' by simp
qed

subsection \<open>The invariant of the accumulators\<close>

lemma acc_inv_empty: "acc_inv empty_acc"
  by (simp add: acc_inv_def empty_acc_def)

lemma cnt_ok_first: "cnt_ok (bump key (zero_cnt\<lparr>total := total zero_cnt + 1\<rparr>))"
  by (cases key) (simp_all add: cnt_ok_def bump_def zero_cnt_def)

lemma cnt_ok_next: "cnt_ok c \<Longrightarrow> cnt_ok (bump key (c\<lparr>total := total c + 1\<rparr>))"
  by (cases key) (simp_all add: cnt_ok_def bump_def)

lemma total_bump: "total (bump key c) = total c"
  by (cases key) (simp_all add: bump_def)

lemma acc_inv_count_hit:
  assumes "acc_inv st"
  shows "acc_inv (count_hit key l seq st)"
proof -
  let ?C = "counts st" and ?N = "gc_n st"
  let ?c = "dd_get zero_cnt ?C l"
  let ?c' = "bump key (?c\<lparr>total := total ?c + 1\<rparr>)"
  let ?st' = "count_hit key l seq st"
  have d: "distinct (map fst ?C)" and ks: "map fst (gc_sum st) = map fst ?C"
    and kn: "map fst ?N = map fst ?C"
    and ok: "\<And>k c. (k, c) \<in> set ?C \<Longrightarrow> cnt_ok c \<and> map_of ?N k = Some (total c)"
    using assms by (auto simp: acc_inv_def)
  have mC: "map_of (counts ?st') = (map_of ?C)(l \<mapsto> ?c')"
    by (simp add: count_hit_def Let_def map_of_dd_upd dd_get_def)
  have mN: "map_of (gc_n ?st') = (map_of ?N)(l \<mapsto> dd_get 0 ?N l + 1)"
    by (simp add: count_hit_def Let_def map_of_dd_upd)
  have kC: "map fst (counts ?st') = (if l \<in> set (map fst ?C) then map fst ?C else map fst ?C @ [l])"
    by (simp add: count_hit_def Let_def keys_dd_upd)
  have kS: "map fst (gc_sum ?st') = map fst (counts ?st')"
    unfolding kC by (simp add: count_hit_def Let_def keys_dd_upd ks)
  have kN: "map fst (gc_n ?st') = map fst (counts ?st')"
    unfolding kC by (simp add: count_hit_def Let_def keys_dd_upd kn)
  have dC: "distinct (map fst (counts ?st'))"
    unfolding kC using d by simp
  have new: "cnt_ok ?c' \<and> dd_get 0 ?N l + 1 = total ?c'"
  proof (cases "map_of ?C l")
    case None
    then have "l \<notin> set (map fst ?N)" unfolding kn by (simp add: map_of_eq_None_iff)
    then have "map_of ?N l = None" by (simp add: map_of_eq_None_iff)
    then show ?thesis using None cnt_ok_first [of key]
      by (simp add: dd_get_def total_bump zero_cnt_def)
  next
    case (Some c)
    then have "(l, c) \<in> set ?C" by (rule map_of_SomeD)
    from ok [OF this] show ?thesis using Some cnt_ok_next [of c key]
      by (simp add: dd_get_def total_bump)
  qed
  have "cnt_ok c \<and> map_of (gc_n ?st') k = Some (total c)"
    if "(k, c) \<in> set (counts ?st')" for k c
  proof -
    have m: "map_of (counts ?st') k = Some c" using that dC by simp
    show ?thesis
    proof (cases "k = l")
      case True
      then have "c = ?c'" using m mC by simp
      then show ?thesis using new True mN by simp
    next
      case False
      then have "map_of ?C k = Some c" using m mC by simp
      then have "(k, c) \<in> set ?C" by (rule map_of_SomeD)
      from ok [OF this] show ?thesis using False mN by simp
    qed
  qed
  then show ?thesis unfolding acc_inv_def using dC kS kN by auto
qed

lemma acc_inv_record_step: "acc_inv st \<Longrightarrow> acc_inv (record_step r2t t2l key r st)"
  by (auto simp: record_step_def acc_inv_count_hit split: prod.splits sum.splits option.splits)

lemma acc_inv_process_fastq:
  "acc_inv st \<Longrightarrow> process_fastq f r2t t2l key st = Inr st' \<Longrightarrow> acc_inv st'"
proof (induction f arbitrary: st rule: length_induct)
  case (1 f)
  show ?case
  proof (cases "length f < 4")
    case True
    then show ?thesis using "1.prems" by (simp add: process_fastq_short)
  next
    case False
    then obtain h s p q rest where f: "f = h # s # p # q # rest"
      by (cases f; simp) (metis (no_types, opaque_lifting) Suc_less_eq length_0_conv length_Suc_conv
          less_Suc_eq numeral_3_eq_3 numeral_Bit0 Suc_1 add_2_eq_Suc' less_nat_zero_code
          neq_Nil_conv list.size(4) not_less_eq zero_less_Suc)
    have ih: "acc_inv a \<Longrightarrow> process_fastq rest r2t t2l key a = Inr st' \<Longrightarrow> acc_inv st'" for a
      using "1.IH" [rule_format, of rest a] by (simp add: f)
    show ?thesis
    proof (cases "h = [] \<or> q = []")
      case True
      then have "process_fastq f r2t t2l key st = Inr st"
        unfolding f by (subst process_fastq.simps) auto
      then show ?thesis using "1.prems" by simp
    next
      case hq: False
      then have w: "h \<noteq> []" "q \<noteq> []" by simp_all
      obtain rid where rid: "normalize_read_id h = Inr rid"
        using "1.prems"(2) unfolding f process_fastq_record [OF w]
        by (cases "normalize_read_id h") simp_all
      show ?thesis
      proof (cases "lookup_lineage r2t t2l rid")
        case None
        have "process_fastq rest r2t t2l key st = Inr st'"
          using "1.prems"(2) unfolding f process_fastq_record [OF w] by (simp add: rid None)
        then show ?thesis using ih "1.prems"(1) by blast
      next
        case (Some l)
        have "process_fastq rest r2t t2l key (count_hit key l s st) = Inr st'"
          using "1.prems"(2) unfolding f process_fastq_record [OF w] by (simp add: rid Some)
        then show ?thesis using ih acc_inv_count_hit [OF "1.prems"(1)] by blast
      qed
    qed
  qed
qed

lemma acc_inv_run_passes:
  "acc_inv st \<Longrightarrow> run_passes ps r2t t2l st = Inr st' \<Longrightarrow> acc_inv st'"
proof (induction ps arbitrary: st)
  case Nil
  then show ?case by simp
next
  case (Cons a ps)
  obtain key f where a: "a = (key, f)" by (cases a) auto
  from Cons.prems(2) obtain st1 where 1: "process_fastq f r2t t2l key st = Inr st1"
    and 2: "run_passes ps r2t t2l st1 = Inr st'"
    by (auto simp: a split: sum.splits)
  have "acc_inv st1" using acc_inv_process_fastq [OF Cons.prems(1) 1] .
  then show ?case using Cons.IH 2 by blast
qed


subsection \<open>The writer\<close>

lemma write_rows_eq:
  assumes "\<forall>kc\<in>set items. min_reads \<le> total (snd kc) \<longrightarrow> total (snd kc) \<noteq> 0"
  shows "write_rows items (gc_sum st) (gc_n st) min_reads
           = Inr (map (item_row st) (filter (\<lambda>kc. min_reads \<le> total (snd kc)) items))"
  using assms
proof (induction items)
  case Nil
  then show ?case by simp
next
  case (Cons kc items)
  obtain k c where kc: "kc = (k, c)" by (cases kc) auto
  have ih: "write_rows items (gc_sum st) (gc_n st) min_reads
           = Inr (map (item_row st) (filter (\<lambda>kc. min_reads \<le> total (snd kc)) items))"
    using Cons by simp
  show ?case
  proof (cases "total c < min_reads")
    case True
    then show ?thesis by (simp add: kc ih)
  next
    case False
    then have "total c \<noteq> 0" using Cons.prems by (simp add: kc)
    then show ?thesis using False
      by (simp add: kc ih truediv_def item_row_def Let_def)
  qed
qed

lemma write_table_eq:
  assumes "\<forall>kc\<in>set (counts st). min_reads \<le> total (snd kc) \<longrightarrow> total (snd kc) \<noteq> 0"
  shows "write_table st min_reads
           = Inr (map (item_row st)
                   (filter (\<lambda>kc. min_reads \<le> total (snd kc)) (sorted_items (counts st))))"
  unfolding write_table_def using assms
  by (intro write_rows_eq) (simp add: sorted_items_def)

lemma acc_inv_totals: "acc_inv st \<Longrightarrow> kc \<in> set (counts st) \<Longrightarrow> 1 \<le> total (snd kc)"
  by (auto simp: acc_inv_def cnt_ok_def)



lemma sorted_items_desc: "sorted_wrt (\<ge>) (map (\<lambda>kc. total (snd kc)) (sorted_items items))"
proof -
  have "sorted (map (\<lambda>kc. - total (snd kc)) (sorted_items items))"
    unfolding sorted_items_def by (rule sorted_sort_key)
  then show ?thesis
    by (simp add: sorted_wrt_map)
qed

lemma sorted_items_stable:
  "filter (\<lambda>kc. total (snd kc) = t) (sorted_items items)
     = filter (\<lambda>kc. total (snd kc) = t) items"
proof -
  have "filter (\<lambda>kc. - total (snd kc) = - t) (sort_key (\<lambda>kc. - total (snd kc)) items)
     = filter (\<lambda>kc. - total (snd kc) = - t) items"
    by (rule sort_key_stable)
  then show ?thesis by (simp add: sorted_items_def)
qed

lemma set_sorted_items: "set (sorted_items items) = set items"
  by (simp add: sorted_items_def)

lemma distinct_sorted_items:
  "distinct (map fst items) \<Longrightarrow> distinct (map fst (sorted_items items))"
proof -
  assume d: "distinct (map fst items)"
  have "mset (map fst (sorted_items items)) = mset (map fst items)"
    by (simp add: sorted_items_def)
  then show ?thesis using d by (metis distinct_count_atmost_1 set_mset_mset)
qed


subsection \<open>Splitting a joined list\<close>

lemma split_on_no_sep: "sep \<notin> set s \<Longrightarrow> split_on sep s = [s]"
  by (induction s) auto

lemma split_on_append:
  "sep \<notin> set s \<Longrightarrow> split_on sep (s @ sep # t) = s # split_on sep t"
  by (induction s) auto

lemma split_on_join:
  "segs \<noteq> [] \<Longrightarrow> \<forall>s\<in>set segs. sep \<notin> set s \<Longrightarrow> split_on sep (join [sep] segs) = segs"
proof (induction segs)
  case Nil
  then show ?case by simp
next
  case (Cons x segs)
  show ?case
  proof (cases segs)
    case Nil
    then show ?thesis using Cons.prems by (simp add: split_on_no_sep)
  next
    case (Cons y ys)
    have x: "sep \<notin> set x" using Cons.prems by simp
    have "split_on sep (join [sep] segs) = segs" using Cons.IH Cons.prems Cons by simp
    then show ?thesis using split_on_append [OF x, of "join [sep] (y # ys)"] Cons by simp
  qed
qed

subsection \<open>The ladder of the lineage builder\<close>

lemma report_loop_fold:
  "report_loop f state = fold (\<lambda>r s. ladder_step s r) (report_rows f) state"
  by (induction f arbitrary: state)
     (simp_all add: report_rows_def map_filter_simps split: option.splits)

lemma rank_prefix_shape:
  "rank_prefix r = Some p \<Longrightarrow> length p = 3 \<and> CHR '';'' \<notin> set p \<and> p \<in> set ladder_prefixes"
  by (auto simp: rank_prefix_def rank_table_def ladder_prefixes_def split: if_splits)

lemma snd_ladder_step: "snd (ladder_step (T, L) r) = climb L r"
proof -
  obtain rank taxid name where r: "r = (rank, taxid, name)" by (cases r) auto
  show ?thesis
  proof (cases "rank_prefix rank")
    case None
    then show ?thesis by (simp add: ladder_step_def climb_def r Let_def)
  next
    case (Some p)
    then have "p \<noteq> []" using rank_prefix_shape [OF Some] by auto
    then show ?thesis using Some by (simp add: ladder_step_def climb_def r Let_def)
  qed
qed

lemma fst_ladder_step_other:
  "\<not> (genus_or_species r \<and> fst (snd r) = t) \<Longrightarrow> fst (ladder_step (T, L) r) t = T t"
  by (cases r) (auto simp: ladder_step_def genus_or_species_def Let_def)

lemma fst_ladder_step_hit:
  assumes "rank = ''G'' \<or> rank = ''S''"
  shows "fst (ladder_step (T, L) (rank, taxid, name)) taxid =
     Some (join '';'' (List.map_filter (climb L (rank, taxid, name))
        ([''D'', ''K'', ''P'', ''C'', ''O'', ''F'', ''G''] @ (if rank = ''S'' then [''S''] else []))))"
proof -
  obtain p where p: "rank_prefix rank = Some p" "p \<noteq> []"
    using assms by (auto simp: rank_prefix_def rank_table_def)
  show ?thesis using assms p
    by (auto simp: ladder_step_def climb_def Let_def)
qed

lemma ladder_ok_climb:
  assumes "ladder_ok seen L" and "CHR '';'' \<notin> set (snd (snd r))"
  shows "ladder_ok (fst r # seen) (climb L r)"
proof (cases "rank_prefix (fst r)")
  case None
  then show ?thesis using assms(1) by (auto simp: ladder_ok_def climb_def)
next
  case (Some p)
  then show ?thesis using assms
    by (auto simp: ladder_ok_def climb_def)
qed

lemma ladder_ok_fold:
  assumes "ladder_ok seen L" and "\<forall>r\<in>set rows. CHR '';'' \<notin> set (snd (snd r))"
  shows "ladder_ok (rev (map fst rows) @ seen) (snd (fold (\<lambda>r s. ladder_step s r) rows (T, L)))"
  using assms
proof (induction rows arbitrary: seen T L)
  case Nil
  then show ?case by simp
next
  case (Cons r rows)
  obtain T' where st: "ladder_step (T, L) r = (T', climb L r)"
    using snd_ladder_step [of T L r] by (cases "ladder_step (T, L) r") auto
  have "ladder_ok (fst r # seen) (climb L r)"
    using Cons.prems by (intro ladder_ok_climb) simp_all
  from Cons.IH [OF this, of T'] show ?case using Cons.prems(2) by (simp add: st)
qed

lemma fold_ladder_keeps:
  assumes "\<forall>r\<in>set rows. \<not> (genus_or_species r \<and> fst (snd r) = t)"
  shows "fst (fold (\<lambda>r s. ladder_step s r) rows (T, L)) t = T t"
  using assms
proof (induction rows arbitrary: T L)
  case Nil
  then show ?case by simp
next
  case (Cons r rows)
  obtain T' L' where st: "ladder_step (T, L) r = (T', L')" by (cases "ladder_step (T, L) r") auto
  have "T' t = T t" using fst_ladder_step_other [of r t T L] Cons.prems st by simp
  moreover have "fst (fold (\<lambda>r s. ladder_step s r) rows (T', L')) t = T' t"
    using Cons by simp
  ultimately show ?case by (simp add: st)
qed

lemma ancestors_seen_append:
  "ancestors_seen seen (pre @ rows) \<Longrightarrow> ancestors_seen (rev (map fst pre) @ seen) rows"
  by (induction pre arbitrary: seen) auto

lemma ladder_segments:
  assumes ok: "ladder_ok seen L"
    and have_all: "set ranks \<subseteq> set seen"
    and known: "\<forall>r\<in>set ranks. rank_prefix r \<noteq> None"
  shows "length (List.map_filter L ranks) = length ranks
     \<and> (\<forall>i<length ranks. CHR '';'' \<notin> set (List.map_filter L ranks ! i)
           \<and> take 3 (List.map_filter L ranks ! i) = the (rank_prefix (ranks ! i)))"
  using have_all known
proof (induction ranks)
  case Nil
  then show ?case by (simp add: map_filter_simps)
next
  case (Cons r ranks)
  from Cons.prems obtain p where p: "rank_prefix r = Some p" by auto
  have "L r \<noteq> None" using ok Cons.prems p by (auto simp: ladder_ok_def)
  then obtain v where v: "L r = Some v" by auto
  then obtain p' n where "rank_prefix r = Some p'" "v = p' @ n" "CHR '';'' \<notin> set n"
    using ok unfolding ladder_ok_def by blast
  then have vv: "v = p @ n" "CHR '';'' \<notin> set n" using p by simp_all
  have shape: "length p = 3" "CHR '';'' \<notin> set p" using rank_prefix_shape [OF p] by simp_all
  have hd: "CHR '';'' \<notin> set v" "take 3 v = p" using vv shape by simp_all
  have ih: "length (List.map_filter L ranks) = length ranks
     \<and> (\<forall>i<length ranks. CHR '';'' \<notin> set (List.map_filter L ranks ! i)
           \<and> take 3 (List.map_filter L ranks ! i) = the (rank_prefix (ranks ! i)))"
    using Cons by simp
  show ?case
  proof (intro conjI allI impI)
    show "length (List.map_filter L (r # ranks)) = length (r # ranks)"
      using ih v by (simp add: map_filter_simps)
  next
    fix i assume "i < length (r # ranks)"
    then show "CHR '';'' \<notin> set (List.map_filter L (r # ranks) ! i)"
      using ih v hd by (cases i) (simp_all add: map_filter_simps)
  next
    fix i assume "i < length (r # ranks)"
    then show "take 3 (List.map_filter L (r # ranks) ! i) = the (rank_prefix ((r # ranks) ! i))"
      using ih v hd p by (cases i) (simp_all add: map_filter_simps)
  qed
qed

lemma ordered_prefixes:
  "i < length ([''D'', ''K'', ''P'', ''C'', ''O'', ''F'', ''G''] @ xs) \<Longrightarrow> set xs \<subseteq> {''S''}
     \<Longrightarrow> length xs \<le> 1
     \<Longrightarrow> the (rank_prefix (([''D'', ''K'', ''P'', ''C'', ''O'', ''F'', ''G''] @ xs) ! i))
           = ladder_prefixes ! i"
proof -
  assume i: "i < length ([''D'', ''K'', ''P'', ''C'', ''O'', ''F'', ''G''] @ xs)"
    and xs: "set xs \<subseteq> {''S''}" "length xs \<le> 1"
  have "xs = [] \<or> xs = [''S'']" using xs by (cases xs) auto
  moreover have "i < 8" using i xs by simp
  then have "i \<in> {0, 1, 2, 3, 4, 5, 6, 7}" by auto
  ultimately show ?thesis using i
    by (auto simp: rank_prefix_def rank_table_def ladder_prefixes_def)
qed

lemma genus_species_lineage:
  assumes ok: "ladder_ok seen L"
    and rank: "rank = ''G'' \<or> rank = ''S''"
    and name: "CHR '';'' \<notin> set name"
    and anc: "rank = ''G'' \<longrightarrow> set [''D'', ''K'', ''P'', ''C'', ''O'', ''F''] \<subseteq> set seen"
      "rank = ''S'' \<longrightarrow> set [''D'', ''K'', ''P'', ''C'', ''O'', ''F'', ''G''] \<subseteq> set seen"
  shows "\<exists>s. fst (ladder_step (T, L) (rank, taxid, name)) taxid = Some s
     \<and> length (split_on CHR '';'' s) = (if rank = ''G'' then 7 else 8)
     \<and> (\<forall>i<length (split_on CHR '';'' s). take 3 (split_on CHR '';'' s ! i) = ladder_prefixes ! i)"
proof -
  define xs where "xs = (if rank = ''S'' then [''S''] else [])"
  define ordered where "ordered = [''D'', ''K'', ''P'', ''C'', ''O'', ''F'', ''G''] @ xs"
  define L' where "L' = climb L (rank, taxid, name)"
  define segs where "segs = List.map_filter L' ordered"
  have ok': "ladder_ok (rank # seen) L'"
    using ladder_ok_climb [OF ok, of "(rank, taxid, name)"] name by (simp add: L'_def)
  have sub: "set ordered \<subseteq> set (rank # seen)"
    using rank anc by (auto simp: ordered_def xs_def)
  have known: "\<forall>r\<in>set ordered. rank_prefix r \<noteq> None"
    by (auto simp: rank_prefix_def rank_table_def ordered_def xs_def)
  have lo: "length ordered = (if rank = ''G'' then 7 else 8)"
    using rank by (auto simp: ordered_def xs_def)
  note seg = ladder_segments [OF ok' sub known, folded segs_def]
  have len: "length segs = (if rank = ''G'' then 7 else 8)" using seg lo by simp
  then have ne: "segs \<noteq> []" by (auto split: if_splits)
  have nosep: "\<forall>s\<in>set segs. CHR '';'' \<notin> set s"
    using seg by (metis in_set_conv_nth)
  have split: "split_on CHR '';'' (join '';'' segs) = segs"
    using split_on_join [OF ne nosep] by simp
  have pre: "take 3 (segs ! i) = ladder_prefixes ! i" if "i < length segs" for i
  proof -
    have i: "i < length ordered" using that seg by simp
    then have "take 3 (segs ! i) = the (rank_prefix (ordered ! i))" using seg by blast
    also have "\<dots> = ladder_prefixes ! i"
      using i unfolding ordered_def by (intro ordered_prefixes) (auto simp: xs_def)
    finally show ?thesis .
  qed
  have "fst (ladder_step (T, L) (rank, taxid, name)) taxid = Some (join '';'' segs)"
    unfolding fst_ladder_step_hit [OF rank] segs_def L'_def ordered_def xs_def ..
  then show ?thesis using len pre split by auto
qed

subsection \<open>Decimal numerals\<close>









subsection \<open>Patterns\<close>






subsection \<open>Fingerprint and build\<close>












section \<open>The claims of the specification\<close>

lemmas eval_text =
  strip_def rstrip_nl_def isspace_def split_ws.simps normalize_read_id_def tsv_def Let_def
  upper_def upper_char_def gc_fraction_def gc_count_def blank_header_def

lemmas eval_acc =
  fastq_lines_def fastq_of_def whole_record_def process_fastq.simps lookup_lineage_def
  count_hit_def dd_upd_def dd_get_def empty_acc_def zero_cnt_def bump_def aggregate_def

text \<open>
  C6, as the specification states it: for every input string \<open>gc_fraction\<close> is the
  number of G and C characters in either case divided by the length of the string.
  This fails on a sequence line as \<open>process_fastq\<close> passes it, with its line feed:
  the code strips the string first, and divides by the length of what is left.
\<close>

theorem gc_fraction_length_counterexample:
  "gc_fraction (''G'' @ [CHR 0x0A]) = 1
   \<and> (of_nat (gc_count (''G'' @ [CHR 0x0A])) / of_nat (length (''G'' @ [CHR 0x0A])) :: rat) = 1 / 2"
  by (simp add: eval_text)

text \<open>
  C6, amended: \<open>gc_fraction\<close> is the number of G and C characters in either case
  divided by the length of the input after its leading and trailing whitespace is
  removed and it is upper-cased, and 0 when nothing is left, so that no division by zero
  takes place. Among the code points below 256 only U+00DF, which becomes SS, changes
  the length when upper-cased, so on ASCII text the divisor is the length of the
  stripped input. It is 0 on the empty string, 1 on GCGC and 0 on ATAT.
\<close>

theorem gc_fraction_stripped:
  "gc_fraction s
     = (if strip s = [] then 0
        else of_nat (gc_count s) / of_nat (length (upper (strip s))))
   \<and> length (upper (strip s)) = length (strip s) + count_list (strip s) (CHR 0xDF)
   \<and> gc_fraction [] = 0 \<and> gc_fraction ''GCGC'' = 1 \<and> gc_fraction ''ATAT'' = 0
   \<and> gc_fraction [CHR ''G'', CHR 0xDF] = 1 / 3"
proof -
  have "gc_fraction [] = 0" "gc_fraction ''GCGC'' = 1" "gc_fraction ''ATAT'' = 0"
    "gc_fraction [CHR ''G'', CHR 0xDF] = 1 / 3"
    by (simp_all add: eval_text)
  then show ?thesis using gc_fraction_eq [of s] length_upper [of "strip s"] by simp
qed

text \<open>
  C9, as stated: for every classification stream the read ids of the run with
  \<open>classified_only\<close> enabled are among those of the run with it disabled. The
  disabled run normalizes the header of every row, the enabled run those of the C rows
  only: on a stream with an unclassified row of blank header and a classified row, the
  enabled run returns a read id and the disabled run raises, so it produces no read id
  at all.
\<close>

theorem classified_only_abort_counterexample:
  "load_kraken_read_map [tsv [''U'', [], ''5''], tsv [''C'', ''r1'', ''1'']] True
     = Inr [''r1'' \<mapsto> ''1'']
   \<and> load_kraken_read_map [tsv [''U'', [], ''5''], tsv [''C'', ''r1'', ''1'']] False
     = Inl IndexError"
  by (simp add: load_kraken_read_map_def eval_text)

text \<open>
  C9, amended: for every classification stream that loads with \<open>classified_only\<close>
  disabled, it loads with \<open>classified_only\<close> enabled as well, and the read ids of the
  enabled run are among the read ids of the disabled run.
\<close>

theorem classified_only_subset:
  assumes "load_kraken_read_map kraken False = Inr without"
  shows "\<exists>only. load_kraken_read_map kraken True = Inr only \<and> dom only \<subseteq> dom without"
  using load_kraken_loop_dom [of kraken Map.empty without Map.empty] assms
  by (simp add: load_kraken_read_map_def)

theorem classified_only_subset_witness:
  "\<exists>only. load_kraken_read_map ex_kraken True = Inr only
      \<and> dom only \<subseteq> {''r1'', ''r2'', ''r3''} \<and> ''r1'' \<in> dom only"
proof -
  have f: "load_kraken_read_map ex_kraken False = Inr ex_read_to_taxid"
    by (simp add: load_kraken_read_map_def ex_kraken_def ex_read_to_taxid_def eval_text)
  have t: "load_kraken_read_map ex_kraken True = Inr [''r1'' \<mapsto> ''5'', ''r3'' \<mapsto> ''7'']"
    by (simp add: load_kraken_read_map_def ex_kraken_def eval_text)
  have d: "dom ex_read_to_taxid = {''r1'', ''r2'', ''r3''}"
    by (auto simp: ex_read_to_taxid_def)
  from classified_only_subset [OF f] show ?thesis using d t by auto
qed

text \<open>
  C10, as stated: a classification row of at least three fields with a blank read
  header aborts the run. With \<open>classified_only\<close> enabled a row whose status is not
  C is skipped before its header is normalized, so the run returns.
\<close>

theorem blank_header_row_counterexample:
  "length (split_on CHR 0x09 (rstrip_nl (tsv [''U'', '''', ''5'']))) = 3
   \<and> blank_header (split_on CHR 0x09 (rstrip_nl (tsv [''U'', '''', ''5''])) ! 1)
   \<and> load_kraken_read_map [tsv [''U'', '''', ''5'']] True = Inr Map.empty"
  by (simp add: load_kraken_read_map_def eval_text)

text \<open>
  C10, amended: \<open>normalize_read_id\<close> raises IndexError exactly on the inputs that are
  empty or a lone @ once stripped. Hence a classification row that is not a blank line,
  has at least three fields and a blank read header, and is not filtered out
  (\<open>classified_only\<close> is disabled or the status is C) aborts the load with that
  exception, and so does a read-stream file of whole records in which one header is
  blank.
\<close>

theorem normalize_read_id_partial:
  "(normalize_read_id s = Inl IndexError \<longleftrightarrow> strip s = [] \<or> strip s = ''@'')
   \<and> (strip line \<noteq> [] \<and> 3 \<le> length (split_on CHR 0x09 (rstrip_nl line))
        \<and> blank_header (split_on CHR 0x09 (rstrip_nl line) ! 1)
        \<and> (classified_only \<longrightarrow> split_on CHR 0x09 (rstrip_nl line) ! 0 = ''C'')
      \<longrightarrow> load_kraken_read_map (pre @ line # post) classified_only = Inl IndexError)
   \<and> ((\<forall>r\<in>set (recs1 @ (h, sq, sp, q) # recs2). whole_record r) \<and> blank_header h
        \<and> length rest < 4
      \<longrightarrow> process_fastq (fastq_lines (recs1 @ (h, sq, sp, q) # recs2) @ rest)
            read_to_taxid taxid_to_lineage file_key st = Inl IndexError)"
proof (intro conjI impI)
  show "normalize_read_id s = Inl IndexError \<longleftrightarrow> strip s = [] \<or> strip s = ''@''"
    by (simp add: normalize_read_id_raises blank_header_def)
next
  assume "strip line \<noteq> [] \<and> 3 \<le> length (split_on CHR 0x09 (rstrip_nl line))
        \<and> blank_header (split_on CHR 0x09 (rstrip_nl line) ! 1)
        \<and> (classified_only \<longrightarrow> split_on CHR 0x09 (rstrip_nl line) ! 0 = ''C'')"
  then show "load_kraken_read_map (pre @ line # post) classified_only = Inl IndexError"
    unfolding load_kraken_read_map_def by (intro load_kraken_loop_blank_row) simp_all
next
  assume a: "(\<forall>r\<in>set (recs1 @ (h, sq, sp, q) # recs2). whole_record r) \<and> blank_header h
        \<and> length rest < 4"
  then have "\<exists>r\<in>set (recs1 @ (h, sq, sp, q) # recs2). blank_header (fst r)" by auto
  then show "process_fastq (fastq_lines (recs1 @ (h, sq, sp, q) # recs2) @ rest)
            read_to_taxid taxid_to_lineage file_key st = Inl IndexError"
    using process_fastq_records [of "recs1 @ (h, sq, sp, q) # recs2" rest] a by simp
qed

theorem normalize_read_id_partial_witness:
  "normalize_read_id [CHR 0x20, CHR ''@'', CHR 0x0A] = Inl IndexError
   \<and> normalize_read_id ''@read1/1 extra'' = Inr ''read1/1''
   \<and> load_kraken_read_map (ex_kraken @ tsv [''C'', '' '', ''5''] # ex_kraken) True = Inl IndexError
   \<and> process_fastq (fastq_lines ([ex_rec1] @ ex_blank_rec # [ex_rec3]) @ [''@r9''])
        ex_read_to_taxid ex_taxid_to_lineage Mapped empty_acc = Inl IndexError"
proof -
  let ?line = "tsv [''C'', '' '', ''5'']"
  have 1: "normalize_read_id [CHR 0x20, CHR ''@'', CHR 0x0A] = Inl IndexError"
    using normalize_read_id_partial [of "[CHR 0x20, CHR ''@'', CHR 0x0A]"]
    by (simp add: strip_def isspace_def)
  have 2: "normalize_read_id ''@read1/1 extra'' = Inr ''read1/1''"
    by (simp add: eval_text)
  have "strip ?line \<noteq> [] \<and> 3 \<le> length (split_on CHR 0x09 (rstrip_nl ?line))
        \<and> blank_header (split_on CHR 0x09 (rstrip_nl ?line) ! 1)
        \<and> (True \<longrightarrow> split_on CHR 0x09 (rstrip_nl ?line) ! 0 = ''C'')"
    by (simp add: eval_text)
  then have 3: "load_kraken_read_map (ex_kraken @ ?line # ex_kraken) True = Inl IndexError"
    using normalize_read_id_partial [of s ?line True ex_kraken ex_kraken] by blast
  obtain h sq sp q where b: "ex_blank_rec = (h, sq, sp, q)" by (cases ex_blank_rec) auto
  have "(\<forall>r\<in>set ([ex_rec1] @ (h, sq, sp, q) # [ex_rec3]). whole_record r) \<and> blank_header h
        \<and> length [''@r9''] < 4"
    using b by (auto simp: ex_blank_rec_def ex_rec1_def ex_rec3_def fastq_of_def
        whole_record_def blank_header_def strip_def isspace_def)
  then have 4: "process_fastq (fastq_lines ([ex_rec1] @ ex_blank_rec # [ex_rec3]) @ [''@r9''])
        ex_read_to_taxid ex_taxid_to_lineage Mapped empty_acc = Inl IndexError"
    using normalize_read_id_partial [of s line classified_only pre post "[ex_rec1]" h sq sp q
        "[ex_rec3]" "[''@r9'']" ex_read_to_taxid ex_taxid_to_lineage Mapped empty_acc]
    unfolding b by blast
  show ?thesis using 1 2 3 4 by simp
qed

text \<open>
  C2: for all join maps, permuting the whole records of the mapped file and of the
  unmapped file (an incomplete group of fewer than four lines, if the file ends with
  one, stays last) changes nothing in what the two passes leave for each lineage: either
  both runs abort in \<open>normalize_read_id\<close>, or both return, with the same counts, the
  same GC sum and the same GC sample count under every lineage. The GC sum is that of
  exact arithmetic: the rounding of floating-point addition is not modelled.
\<close>

theorem aggregate_order_independent:
  assumes "\<forall>r\<in>set ms. whole_record r" and "\<forall>r\<in>set us. whole_record r"
    and "mset ms' = mset ms" and "mset us' = mset us"
    and "length mrest < 4" and "length urest < 4"
  shows "(aggregate read_to_taxid taxid_to_lineage
            (fastq_lines ms' @ mrest) (fastq_lines us' @ urest) = Inl IndexError
          \<and> aggregate read_to_taxid taxid_to_lineage
            (fastq_lines ms @ mrest) (fastq_lines us @ urest) = Inl IndexError)
       \<or> (\<exists>a' a.
            aggregate read_to_taxid taxid_to_lineage
              (fastq_lines ms' @ mrest) (fastq_lines us' @ urest) = Inr a'
          \<and> aggregate read_to_taxid taxid_to_lineage
              (fastq_lines ms @ mrest) (fastq_lines us @ urest) = Inr a
          \<and> (\<forall>lineage. map_of (counts a') lineage = map_of (counts a) lineage
                \<and> map_of (gc_sum a') lineage = map_of (gc_sum a) lineage
                \<and> map_of (gc_n a') lineage = map_of (gc_n a) lineage))"
proof -
  let ?m = "\<lambda>f st. process_fastq (fastq_lines f @ mrest) read_to_taxid taxid_to_lineage Mapped st"
  let ?u = "\<lambda>f st. process_fastq (fastq_lines f @ urest) read_to_taxid taxid_to_lineage Unmapped st"
  from process_fastq_permuted [OF assms(1,3) _ assms(5), of empty_acc empty_acc]
  consider "?m ms' empty_acc = Inl IndexError" "?m ms empty_acc = Inl IndexError"
    | b' b where "?m ms' empty_acc = Inr b'" "?m ms empty_acc = Inr b"
        "acc_view b' = acc_view b"
    by blast
  then show ?thesis
  proof cases
    case 1
    then show ?thesis by (simp add: aggregate_def)
  next
    case 2
    from process_fastq_permuted [OF assms(2,4) 2(3) assms(6)]
    consider "?u us' b' = Inl IndexError" "?u us b = Inl IndexError"
      | a' a where "?u us' b' = Inr a'" "?u us b = Inr a" "acc_view a' = acc_view a"
      by blast
    then show ?thesis
    proof cases
      case 1
      then show ?thesis using 2 by (simp add: aggregate_def)
    next
      case inner: 2
      then show ?thesis using 2 by (simp add: aggregate_def acc_view_def)
    qed
  qed
qed

theorem aggregate_order_independent_witness:
  "\<exists>a' a.
     aggregate ex_read_to_taxid ex_taxid_to_lineage
       (fastq_lines [ex_rec3, ex_rec1] @ [''@r3'']) (fastq_lines [ex_rec1] @ []) = Inr a'
   \<and> aggregate ex_read_to_taxid ex_taxid_to_lineage
       (fastq_lines [ex_rec1, ex_rec3] @ [''@r3'']) (fastq_lines [ex_rec1] @ []) = Inr a
   \<and> map fst (counts a') \<noteq> map fst (counts a)
   \<and> (\<forall>lineage. map_of (counts a') lineage = map_of (counts a) lineage
         \<and> map_of (gc_sum a') lineage = map_of (gc_sum a) lineage
         \<and> map_of (gc_n a') lineage = map_of (gc_n a) lineage)"
proof -
  have w: "\<forall>r\<in>set [ex_rec1, ex_rec3]. whole_record r" "\<forall>r\<in>set [ex_rec1]. whole_record r"
    by (simp_all add: ex_rec1_def ex_rec3_def fastq_of_def whole_record_def)
  have m: "mset [ex_rec3, ex_rec1] = mset [ex_rec1, ex_rec3]" "mset [ex_rec1] = mset [ex_rec1]"
    by simp_all
  have l: "length [''@r3''] < 4" "length ([] :: string list) < 4" by simp_all
  have a: "aggregate ex_read_to_taxid ex_taxid_to_lineage
       (fastq_lines [ex_rec1, ex_rec3] @ [''@r3'']) (fastq_lines [ex_rec1] @ []) =
     Inr \<lparr>counts = [(''g__A'', \<lparr>total = 2, mapped = 1, unmapped = 1\<rparr>),
                    (''g__B'', \<lparr>total = 1, mapped = 1, unmapped = 0\<rparr>)],
          gc_sum = [(''g__A'', 1), (''g__B'', 1)],
          gc_n = [(''g__A'', 2), (''g__B'', 1)]\<rparr>"
    by (simp add: ex_rec1_def ex_rec3_def ex_read_to_taxid_def ex_taxid_to_lineage_def
          eval_acc eval_text)
  have a': "aggregate ex_read_to_taxid ex_taxid_to_lineage
       (fastq_lines [ex_rec3, ex_rec1] @ [''@r3'']) (fastq_lines [ex_rec1] @ []) =
     Inr \<lparr>counts = [(''g__B'', \<lparr>total = 1, mapped = 1, unmapped = 0\<rparr>),
                    (''g__A'', \<lparr>total = 2, mapped = 1, unmapped = 1\<rparr>)],
          gc_sum = [(''g__B'', 1), (''g__A'', 1)],
          gc_n = [(''g__B'', 1), (''g__A'', 2)]\<rparr>"
    by (simp add: ex_rec1_def ex_rec3_def ex_read_to_taxid_def ex_taxid_to_lineage_def
          eval_acc eval_text)
  from aggregate_order_independent [OF w m l, of ex_read_to_taxid ex_taxid_to_lineage]
  show ?thesis unfolding a a' by simp
qed

text \<open>
  C3: one ingested record keeps the invariant of the accumulators, whether it creates
  its lineage key or finds it; and after any sequence of passes that starts from the
  empty accumulators and returns, every lineage key present in one of the three
  dictionaries has its counts and its GC sample count, the three counts are not
  negative, the total is the sum of the mapped and the unmapped count, and the GC sample
  count is the total and at least 1.
\<close>

theorem accumulator_invariant:
  "(acc_inv st \<longrightarrow> acc_inv (count_hit file_key lineage sq st))
   \<and> (run_passes passes read_to_taxid taxid_to_lineage empty_acc = Inr st'
      \<longrightarrow> (\<forall>k\<in>set (map fst (counts st')) \<union> set (map fst (gc_sum st'))
                 \<union> set (map fst (gc_n st')).
            \<exists>c n. map_of (counts st') k = Some c \<and> map_of (gc_n st') k = Some n
              \<and> 0 \<le> total c \<and> 0 \<le> mapped c \<and> 0 \<le> unmapped c
              \<and> total c = mapped c + unmapped c \<and> n = total c \<and> 1 \<le> n))"
proof (intro conjI impI ballI)
  assume "acc_inv st"
  then show "acc_inv (count_hit file_key lineage sq st)" by (rule acc_inv_count_hit)
next
  fix k
  assume r: "run_passes passes read_to_taxid taxid_to_lineage empty_acc = Inr st'"
    and k: "k \<in> set (map fst (counts st')) \<union> set (map fst (gc_sum st'))
                 \<union> set (map fst (gc_n st'))"
  have inv: "acc_inv st'" using acc_inv_run_passes [OF acc_inv_empty r] .
  then have "k \<in> set (map fst (counts st'))" using k by (simp add: acc_inv_def)
  then obtain c where kc: "(k, c) \<in> set (counts st')" by auto
  have d: "distinct (map fst (counts st'))" using inv by (simp add: acc_inv_def)
  have "cnt_ok c \<and> map_of (gc_n st') k = Some (total c)"
    using inv kc by (auto simp: acc_inv_def)
  moreover have "map_of (counts st') k = Some c" using d kc by simp
  ultimately show "\<exists>c n. map_of (counts st') k = Some c \<and> map_of (gc_n st') k = Some n
              \<and> 0 \<le> total c \<and> 0 \<le> mapped c \<and> 0 \<le> unmapped c
              \<and> total c = mapped c + unmapped c \<and> n = total c \<and> 1 \<le> n"
    by (auto simp: cnt_ok_def)
qed

theorem accumulator_invariant_witness:
  "acc_inv (count_hit Unmapped ''g__A'' ''GG'' empty_acc)
   \<and> (\<exists>st'. run_passes [(Mapped, fastq_lines [ex_rec1, ex_rec3]), (Unmapped, fastq_lines [ex_rec1])]
               ex_read_to_taxid ex_taxid_to_lineage empty_acc = Inr st'
        \<and> map fst (counts st') = [''g__A'', ''g__B'']
        \<and> (\<exists>c n. map_of (counts st') ''g__A'' = Some c \<and> map_of (gc_n st') ''g__A'' = Some n
              \<and> 0 \<le> total c \<and> 0 \<le> mapped c \<and> 0 \<le> unmapped c
              \<and> total c = mapped c + unmapped c \<and> n = total c \<and> 1 \<le> n))"
proof -
  let ?ps = "[(Mapped, fastq_lines [ex_rec1, ex_rec3]), (Unmapped, fastq_lines [ex_rec1])]"
  let ?st = "\<lparr>counts = [(''g__A'', \<lparr>total = 2, mapped = 1, unmapped = 1\<rparr>),
                    (''g__B'', \<lparr>total = 1, mapped = 1, unmapped = 0\<rparr>)],
          gc_sum = [(''g__A'', 1), (''g__B'', 1)],
          gc_n = [(''g__A'', 2), (''g__B'', 1)]\<rparr>"
  have r: "run_passes ?ps ex_read_to_taxid ex_taxid_to_lineage empty_acc = Inr ?st"
    by (simp add: ex_rec1_def ex_rec3_def ex_read_to_taxid_def ex_taxid_to_lineage_def
          eval_acc eval_text)
  note t = accumulator_invariant [of empty_acc Unmapped "''g__A''" "''GG''" ?ps
      ex_read_to_taxid ex_taxid_to_lineage ?st]
  have 1: "acc_inv (count_hit Unmapped ''g__A'' ''GG'' empty_acc)"
    using t acc_inv_empty by blast
  have "\<forall>k\<in>set (map fst (counts ?st)) \<union> set (map fst (gc_sum ?st))
                 \<union> set (map fst (gc_n ?st)).
            \<exists>c n. map_of (counts ?st) k = Some c \<and> map_of (gc_n ?st) k = Some n
              \<and> 0 \<le> total c \<and> 0 \<le> mapped c \<and> 0 \<le> unmapped c
              \<and> total c = mapped c + unmapped c \<and> n = total c \<and> 1 \<le> n"
    using t r by blast
  then have "\<exists>c n. map_of (counts ?st) ''g__A'' = Some c \<and> map_of (gc_n ?st) ''g__A'' = Some n
              \<and> 0 \<le> total c \<and> 0 \<le> mapped c \<and> 0 \<le> unmapped c
              \<and> total c = mapped c + unmapped c \<and> n = total c \<and> 1 \<le> n"
    by simp
  then show ?thesis using 1 r by simp
qed

lemmas eval_writer =
  write_table_def sorted_items_def truediv_def dd_get_def Let_def



text \<open>
  C5: for every accumulator that satisfies the invariant of the aggregator and every
  threshold, the writer returns rows; their lineages are exactly the lineages whose
  total is at least the threshold, each once; the totals descend; among the rows of one
  total the lineages stand in the order of the accumulator; and each row carries the
  total, mapped/total, unmapped/total and GC sum/GC count (0 for a GC count of 0) of
  its lineage, both proportions between 0 and 1.
\<close>

theorem write_table_rows:
  assumes "acc_inv st"
  shows "\<exists>rows. write_table st min_reads = Inr rows
     \<and> set (map lineage_col rows)
         = {k. \<exists>c. map_of (counts st) k = Some c \<and> min_reads \<le> total c}
     \<and> distinct (map lineage_col rows)
     \<and> sorted_wrt (\<ge>) (map total_col rows)
     \<and> (\<forall>t. map lineage_col (filter (\<lambda>r. total_col r = t) rows)
            = map fst (filter (\<lambda>kc. total (snd kc) = t \<and> min_reads \<le> t) (counts st)))
     \<and> (\<forall>r\<in>set rows. \<exists>c. map_of (counts st) (lineage_col r) = Some c
            \<and> total_col r = total c
            \<and> mapped_prop r = of_int (mapped c) / of_int (total c)
            \<and> unmapped_prop r = of_int (unmapped c) / of_int (total c)
            \<and> avg_gc_col r
                = (if dd_get 0 (gc_n st) (lineage_col r) = 0 then 0
                   else dd_get 0 (gc_sum st) (lineage_col r)
                          / of_int (dd_get 0 (gc_n st) (lineage_col r)))
            \<and> 0 \<le> mapped_prop r \<and> mapped_prop r \<le> 1
            \<and> 0 \<le> unmapped_prop r \<and> unmapped_prop r \<le> 1)"
proof -
  let ?C = "counts st"
  let ?P = "\<lambda>kc. min_reads \<le> total (snd kc)"
  let ?L = "filter ?P (sorted_items ?C)"
  let ?rows = "map (item_row st) ?L"
  have d: "distinct (map fst ?C)" using assms by (simp add: acc_inv_def)
  have ok: "cnt_ok c" if "(k, c) \<in> set ?C" for k c
    using assms that by (auto simp: acc_inv_def)
  have "\<forall>kc\<in>set ?C. ?P kc \<longrightarrow> total (snd kc) \<noteq> 0"
    using acc_inv_totals [OF assms] by fastforce
  then have w: "write_table st min_reads = Inr ?rows" by (rule write_table_eq)
  have lin: "map lineage_col ?rows = map fst ?L" by (simp add: item_row_def)
  have tot: "map total_col ?rows = map (\<lambda>kc. total (snd kc)) ?L" by (simp add: item_row_def)
  have 1: "set (map lineage_col ?rows)
         = {k. \<exists>c. map_of ?C k = Some c \<and> min_reads \<le> total c}"
    unfolding lin using d by (auto simp: set_sorted_items image_iff)
  have 2: "distinct (map lineage_col ?rows)"
    unfolding lin using distinct_sorted_items [OF d] by (rule distinct_map_filter)
  have 3: "sorted_wrt (\<ge>) (map total_col ?rows)"
    unfolding tot using sorted_items_desc [of ?C]
    by (simp add: sorted_wrt_map sorted_wrt_filter)
  have 4: "map lineage_col (filter (\<lambda>r. total_col r = t) ?rows)
            = map fst (filter (\<lambda>kc. total (snd kc) = t \<and> min_reads \<le> t) ?C)" for t
  proof -
    have "filter (\<lambda>r. total_col r = t) ?rows
            = map (item_row st) (filter (\<lambda>kc. total (snd kc) = t) ?L)"
      by (simp add: filter_map comp_def item_row_def)
    also have "filter (\<lambda>kc. total (snd kc) = t) ?L
            = filter ?P (filter (\<lambda>kc. total (snd kc) = t) (sorted_items ?C))"
      by (simp add: conj_commute)
    also have "\<dots> = filter (\<lambda>kc. total (snd kc) = t \<and> min_reads \<le> t) ?C"
      unfolding sorted_items_stable by (auto intro: filter_cong)
    finally have e: "filter (\<lambda>r. total_col r = t) ?rows
        = map (item_row st) (filter (\<lambda>kc. total (snd kc) = t \<and> min_reads \<le> t) ?C)" .
    show ?thesis unfolding e by (simp add: item_row_def comp_def)
  qed
  have 5: "\<exists>c. map_of ?C (lineage_col r) = Some c
            \<and> total_col r = total c
            \<and> mapped_prop r = of_int (mapped c) / of_int (total c)
            \<and> unmapped_prop r = of_int (unmapped c) / of_int (total c)
            \<and> avg_gc_col r
                = (if dd_get 0 (gc_n st) (lineage_col r) = 0 then 0
                   else dd_get 0 (gc_sum st) (lineage_col r)
                          / of_int (dd_get 0 (gc_n st) (lineage_col r)))
            \<and> 0 \<le> mapped_prop r \<and> mapped_prop r \<le> 1
            \<and> 0 \<le> unmapped_prop r \<and> unmapped_prop r \<le> 1"
    if "r \<in> set ?rows" for r
  proof -
    from that obtain k c where r: "r = item_row st (k, c)" and kc: "(k, c) \<in> set ?C"
      by (auto simp: set_sorted_items)
    have m: "map_of ?C k = Some c" using d kc by simp
    have c: "0 \<le> mapped c" "0 \<le> unmapped c" "total c = mapped c + unmapped c" "1 \<le> total c"
      using ok [OF kc] by (simp_all add: cnt_ok_def)
    have pos: "(0::rat) < of_int (total c)" using c(4) by simp
    have "(of_int (mapped c) :: rat) \<le> of_int (total c)"
      "(of_int (unmapped c) :: rat) \<le> of_int (total c)"
      using c by simp_all
    then have "(of_int (mapped c) :: rat) / of_int (total c) \<le> 1"
      "(of_int (unmapped c) :: rat) / of_int (total c) \<le> 1"
      using pos by (simp_all add: divide_le_eq)
    moreover have "(0::rat) \<le> of_int (mapped c) / of_int (total c)"
      "(0::rat) \<le> of_int (unmapped c) / of_int (total c)"
      using c pos by simp_all
    ultimately show ?thesis using m by (simp add: r item_row_def)
  qed
  show ?thesis using w 1 2 3 4 5 by blast
qed

theorem write_table_rows_witness:
  "write_table ex_acc 0
     = Inr [\<lparr>lineage_col = ''A'', total_col = 4, mapped_prop = 3 / 4, unmapped_prop = 1 / 4,
             avg_gc_col = 11 / 20\<rparr>,
            \<lparr>lineage_col = ''B'', total_col = 1, mapped_prop = 1, unmapped_prop = 0,
             avg_gc_col = 1\<rparr>]
   \<and> write_table ex_acc 2
     = Inr [\<lparr>lineage_col = ''A'', total_col = 4, mapped_prop = 3 / 4, unmapped_prop = 1 / 4,
             avg_gc_col = 11 / 20\<rparr>]
   \<and> (\<exists>rows. write_table ex_acc 2 = Inr rows
        \<and> set (map lineage_col rows)
            = {k. \<exists>c. map_of (counts ex_acc) k = Some c \<and> 2 \<le> total c}
        \<and> sorted_wrt (\<ge>) (map total_col rows))"
proof -
  have inv: "acc_inv ex_acc"
    by (simp add: acc_inv_def ex_acc_def cnt_ok_def)
  have 0: "write_table ex_acc 0
     = Inr [\<lparr>lineage_col = ''A'', total_col = 4, mapped_prop = 3 / 4, unmapped_prop = 1 / 4,
             avg_gc_col = 11 / 20\<rparr>,
            \<lparr>lineage_col = ''B'', total_col = 1, mapped_prop = 1, unmapped_prop = 0,
             avg_gc_col = 1\<rparr>]"
    by (simp add: eval_writer ex_acc_def)
  have 2: "write_table ex_acc 2
     = Inr [\<lparr>lineage_col = ''A'', total_col = 4, mapped_prop = 3 / 4, unmapped_prop = 1 / 4,
             avg_gc_col = 11 / 20\<rparr>]"
    by (simp add: eval_writer ex_acc_def)
  from write_table_rows [OF inv, of 2]
  have "\<exists>rows. write_table ex_acc 2 = Inr rows
        \<and> set (map lineage_col rows)
            = {k. \<exists>c. map_of (counts ex_acc) k = Some c \<and> 2 \<le> total c}
        \<and> sorted_wrt (\<ge>) (map total_col rows)"
    by blast
  then show ?thesis using 0 2 by blast
qed

lemmas eval_report =
  report_line_def report_row_def report_rows_def ladder_step_def climb_def rank_prefix_def
  rank_table_def ladder_prefixes_def parse_report_build_label_map_def map_filter_simps
  top_down_report_def plain_names_def genus_or_species_def

text \<open>
  C1, as stated: for every rank report in top-down order the lineage of a genus row
  has exactly seven semicolon-separated segments. The code joins the ladder with
  semicolons and leaves the names as they are, so a name that holds a semicolon adds a
  segment: in this report, in top-down order with every rank present, the genus row is
  recorded with eight.
\<close>

theorem lineage_semicolon_counterexample:
  "top_down_report ex_report_semicolon
   \<and> parse_report_build_label_map ex_report_semicolon ''8''
       = Some ''d__a;b;k__k;p__p;c__c;o__o;f__f;g__g''
   \<and> length (split_on CHR '';'' ''d__a;b;k__k;p__p;c__c;o__o;f__f;g__g'') = 8"
  by (simp add: ex_report_semicolon_def eval_report eval_text)

text \<open>
  C1, amended: for every rank report in top-down order (before a genus row a row of
  each of the six ranks above it has been read, before a species row a genus row as
  well, and the genus and species rows have pairwise different taxon ids) in which no
  display name contains a semicolon, every genus or species row is recorded by
  \<open>parse_report_build_label_map\<close> under its taxon id with a lineage string of exactly
  7 segments for a genus row and 8 for a species row, whose i-th segment begins with
  the prefix of the i-th rank.
\<close>

theorem genus_species_lineage_segments:
  assumes td: "top_down_report report" and pl: "plain_names report"
    and row: "(rank, taxid, name) \<in> set (report_rows report)"
    and rank: "rank = ''G'' \<or> rank = ''S''"
  shows "\<exists>s. parse_report_build_label_map report taxid = Some s
     \<and> length (split_on CHR '';'' s) = (if rank = ''G'' then 7 else 8)
     \<and> (\<forall>i<length (split_on CHR '';'' s). take 3 (split_on CHR '';'' s ! i) = ladder_prefixes ! i)"
proof -
  let ?step = "\<lambda>r s. ladder_step s r"
  let ?r = "(rank, taxid, name)"
  obtain pre post where rows: "report_rows report = pre @ ?r # post"
    using row by (meson split_list)
  have names: "\<forall>r\<in>set pre. CHR '';'' \<notin> set (snd (snd r))" "CHR '';'' \<notin> set name"
    using pl unfolding plain_names_def rows by auto
  have gs: "genus_or_species ?r" using rank by (simp add: genus_or_species_def)
  have "distinct (map (\<lambda>r. fst (snd r)) (filter genus_or_species (pre @ ?r # post)))"
    using td unfolding top_down_report_def rows by simp
  then have later: "\<forall>r\<in>set post. \<not> (genus_or_species r \<and> fst (snd r) = taxid)"
    using gs by auto
  have "ancestors_seen [] (pre @ ?r # post)"
    using td unfolding top_down_report_def rows by simp
  then have "ancestors_seen (rev (map fst pre) @ []) (?r # post)"
    by (rule ancestors_seen_append)
  then have anc: "rank = ''G'' \<longrightarrow> set [''D'', ''K'', ''P'', ''C'', ''O'', ''F''] \<subseteq> set (rev (map fst pre) @ [])"
    "rank = ''S'' \<longrightarrow> set [''D'', ''K'', ''P'', ''C'', ''O'', ''F'', ''G''] \<subseteq> set (rev (map fst pre) @ [])"
    by simp_all
  obtain T L where pre_st: "fold ?step pre (Map.empty, Map.empty) = (T, L)"
    by (cases "fold ?step pre (Map.empty, Map.empty)") auto
  have "ladder_ok [] Map.empty" by (simp add: ladder_ok_def)
  from ladder_ok_fold [OF this names(1), of Map.empty]
  have ok: "ladder_ok (rev (map fst pre) @ []) L" by (simp add: pre_st)
  obtain T' L' where st: "ladder_step (T, L) ?r = (T', L')"
    by (cases "ladder_step (T, L) ?r") auto
  have "parse_report_build_label_map report taxid = fst (fold ?step post (T', L')) taxid"
    by (simp add: parse_report_build_label_map_def report_loop_fold rows pre_st st)
  also have "\<dots> = T' taxid" using later by (rule fold_ladder_keeps)
  also have "\<dots> = fst (ladder_step (T, L) ?r) taxid" by (simp add: st)
  finally have "parse_report_build_label_map report taxid = fst (ladder_step (T, L) ?r) taxid" .
  then show ?thesis
    using genus_species_lineage [OF ok rank names(2) anc, of T taxid] by simp
qed

theorem genus_species_lineage_segments_witness:
  "parse_report_build_label_map ex_report ''8''
       = Some ''d__Bacteria;k__k;p__p;c__c;o__o;f__f;g__g''
   \<and> (\<exists>s. parse_report_build_label_map ex_report ''9'' = Some s
        \<and> length (split_on CHR '';'' s) = 8
        \<and> take 3 (split_on CHR '';'' s ! 7) = ''s__'')"
proof -
  have td: "top_down_report ex_report"
    by (simp add: ex_report_def eval_report eval_text)
  have pl: "plain_names ex_report"
    by (simp add: ex_report_def eval_report eval_text)
  have row: "(''S'', ''9'', ''g s'') \<in> set (report_rows ex_report)"
    by (simp add: ex_report_def eval_report eval_text)
  have g: "parse_report_build_label_map ex_report ''8''
       = Some ''d__Bacteria;k__k;p__p;c__c;o__o;f__f;g__g''"
    by (simp add: ex_report_def eval_report eval_text)
  from genus_species_lineage_segments [OF td pl row]
  obtain s where s: "parse_report_build_label_map ex_report ''9'' = Some s"
    "length (split_on CHR '';'' s) = 8"
    "\<forall>i<length (split_on CHR '';'' s). take 3 (split_on CHR '';'' s ! i) = ladder_prefixes ! i"
    by auto
  have "take 3 (split_on CHR '';'' s ! 7) = ladder_prefixes ! 7" using s(2,3) by simp
  then have "take 3 (split_on CHR '';'' s ! 7) = ''s__''"
    by (simp add: ladder_prefixes_def rank_table_def)
  then show ?thesis using g s by blast
qed








end
